theory Spec2Isabelle
  imports Complex_Main
begin

section \<open>The tween engine of fx.ts\<close>

text \<open>
  The animation add-on keeps, for every element, at most one animation state in the
  registry \<open>FX\<close> (a WeakMap keyed by element identity), drives it from the host's
  animation-frame scheduler and writes interpolated values to the element's inline
  style. The embedding below follows \<^verbatim>\<open>src/src/fx.ts\<close> function by function.

  Conventions of the embedding:
  \<^item> JavaScript numbers are modelled as exact reals; \<open>NaN\<close> only arises from
    \<open>parseFloat\<close>, which returns \<open>None\<close> for it.
  \<^item> \<open>parseFloat\<close> is a builtin of the host and is taken as a parameter \<open>pf\<close>.
  \<^item> Elements, animation-state objects and frame handles are identified by naturals.
  \<^item> An object literal such as \<open>{x: 10, y: 0}\<close> is an association list whose order
    is the order of \<open>Object.keys\<close>; its keys are distinct.
  \<^item> Strings built from numbers are kept structured: \<open>String(v)\<close> is \<open>Num v\<close>,
    the template \<open>`${v}px`\<close> is \<open>Px v\<close> and the transform template is \<open>Transform x y s r\<close>.
\<close>

subsection \<open>Data\<close>

type_synonym elem = nat
type_synonym addr = nat
type_synonym handle = nat
type_synonym Easing = "real \<Rightarrow> real"
type_synonym Tweenable = "(string \<times> real) list"
type_synonym Dom = "elem list"

definition ease_linear :: Easing where
  "ease_linear t = t"

definition ease_in :: Easing where
  "ease_in t = t * t"

definition ease_out :: Easing where
  "ease_out t = 1 - (1 - t) * (1 - t)"

definition ease_inout :: Easing where
  "ease_inout t = (if t < 1 / 2 then 2 * t * t else 1 - (- 2 * t + 2) ^ 2 / 2)"

text \<open>The type \<open>FXState\<close>; \<open>from\<close> and \<open>to\<close> are always set by \<open>tweenElement\<close>.\<close>

record FXState =
  raf :: "handle option"
  start :: "real option"
  stop :: bool
  st_from :: "(string \<times> real) list"
  st_to :: "(string \<times> real) list"

text \<open>Values held by the inline style of an element.\<close>

datatype cssval = Str string | Num real | Px real | Transform real real real real

text \<open>
  The only completion callback ever passed to \<open>tweenElement\<close> is the arrow function
  of \<open>fxFade\<close>, which captures the element and the flag \<open>target\<close>.
\<close>

datatype done_cb = FadeDone elem bool

text \<open>
  The closure \<open>step\<close> created by one call of \<open>tweenElement\<close>: the variables it
  captures. \<open>l_st\<close> is the reference to the state object \<open>st\<close>.
\<close>

record loop =
  l_el :: elem
  l_st :: addr
  l_start :: real
  l_ms :: real
  l_easing :: Easing
  l_from :: "(string \<times> real) list"
  l_dst :: "(string \<times> real) list"
  l_onDone :: "done_cb option"

text \<open>
  Observation log: \<open>Wrote a el k v\<close> records that the frame loop owning state \<open>a\<close>
  called \<open>write(el, k, v)\<close>; \<open>Called a\<close> that it invoked its completion callback.
\<close>

datatype event = Wrote addr elem string real | Called addr

fun ev_loop :: "event \<Rightarrow> addr" where
  "ev_loop (Wrote a el k v) = a"
| "ev_loop (Called a) = a"

text \<open>
  The page: inline styles (\<open>el.style\<close>; an unset property reads as the empty string),
  the computed styles returned by \<open>getComputedStyle\<close> (owned by the browser's cascade,
  which is not modelled: no theorem depends on how it follows the inline style), the
  registry \<open>FX\<close>, the store of state objects, the host's list of requested frame
  callbacks with its handle counter, the clock \<open>performance.now()\<close> and the log.
\<close>

record world =
  style :: "elem \<Rightarrow> string \<Rightarrow> cssval"
  computed :: "elem \<Rightarrow> string \<Rightarrow> string"
  FX :: "elem \<Rightarrow> addr option"
  heap :: "addr \<Rightarrow> FXState"
  nextAddr :: addr
  pending :: "(handle \<times> loop) list"
  rafCounter :: handle
  clock :: real
  trace :: "event list"

subsection \<open>Host primitives\<close>

definition now :: "world \<Rightarrow> real" where
  "now w = clock w"

text \<open>
  \<open>requestAnimationFrame\<close>: the handle counter is incremented and the new value is the
  handle, so handles are positive; the callback joins the list of pending callbacks.
\<close>

definition requestAnimationFrame :: "loop \<Rightarrow> world \<Rightarrow> handle \<times> world" where
  "requestAnimationFrame cb w =
     (let h = Suc (rafCounter w)
      in (h, w\<lparr>pending := pending w @ [(h, cb)], rafCounter := h\<rparr>))"

definition cancelAnimationFrame :: "handle \<Rightarrow> world \<Rightarrow> world" where
  "cancelAnimationFrame h w = w\<lparr>pending := filter (\<lambda>p. fst p \<noteq> h) (pending w)\<rparr>"

definition setStyle :: "elem \<Rightarrow> string \<Rightarrow> cssval \<Rightarrow> world \<Rightarrow> world" where
  "setStyle el p v w = w\<lparr>style := (style w)(el := (style w el)(p := v))\<rparr>"

definition setState :: "addr \<Rightarrow> FXState \<Rightarrow> world \<Rightarrow> world" where
  "setState a s w = w\<lparr>heap := (heap w)(a := s)\<rparr>"

definition logEvent :: "event \<Rightarrow> world \<Rightarrow> world" where
  "logEvent e w = w\<lparr>trace := trace w @ [e]\<rparr>"

subsection \<open>String helpers\<close>

definition startsWith :: "string \<Rightarrow> string \<Rightarrow> bool" where
  "startsWith p k = (take (length p) k = p)"

definition isUpper :: "char \<Rightarrow> bool" where
  "isUpper c = (65 \<le> (of_char c :: nat) \<and> (of_char c :: nat) \<le> 90)"

definition toLower :: "char \<Rightarrow> char" where
  "toLower c = (if isUpper c then char_of ((of_char c :: nat) + 32) else c)"

text \<open>\<open>k.replace(/[A-Z]/g, m => "-" + m.toLowerCase())\<close>\<close>

definition kebab :: "string \<Rightarrow> string" where
  "kebab k = concat (map (\<lambda>c. if isUpper c then [CHR ''-'', toLower c] else [c]) k)"

text \<open>\<open>s || d\<close> on strings: the empty string is falsy.\<close>

definition orElse :: "string \<Rightarrow> string \<Rightarrow> string" where
  "orElse s d = (if s = [] then d else s)"

text \<open>\<open>parseFloat(s) || 0\<close> and \<open>isNaN(num) ? 0 : num\<close>: both give 0 for NaN.\<close>

definition numOrZero :: "real option \<Rightarrow> real" where
  "numOrZero r = (case r of None \<Rightarrow> 0 | Some v \<Rightarrow> v)"

subsection \<open>readStyle and write\<close>

definition readStyle :: "(string \<Rightarrow> real option) \<Rightarrow> world \<Rightarrow> elem \<Rightarrow> string \<Rightarrow> real" where
  "readStyle pf w el k =
     (let cs = computed w el
      in if k = ''opacity'' then numOrZero (pf (orElse (cs ''opacity'') ''1''))
         else if k = ''x'' then 0
         else if k = ''y'' then 0
         else if k = ''scale'' then 1
         else if k = ''rotate'' then 0
         else (let raw = orElse (cs (if startsWith ''--'' k then k else kebab k)) ''0''
               in numOrZero (pf raw)))"

text \<open>\<open>f.c ?? st?.from?.c ?? d\<close>\<close>

definition chan :: "(string \<times> real) list \<Rightarrow> (string \<times> real) list \<Rightarrow> string \<Rightarrow> real \<Rightarrow> real" where
  "chan f fr c d =
     (case map_of f c of
        Some b \<Rightarrow> b
      | None \<Rightarrow> (case map_of fr c of Some a \<Rightarrow> a | None \<Rightarrow> d))"

definition isTransformKey :: "string \<Rightarrow> bool" where
  "isTransformKey k = (k = ''x'' \<or> k = ''y'' \<or> k = ''scale'' \<or> k = ''rotate'')"

definition "write" :: "elem \<Rightarrow> string \<Rightarrow> real \<Rightarrow> world \<Rightarrow> world" where
  "write el k v w =
     (if k = ''opacity'' then setStyle el ''opacity'' (Num v) w
      else if isTransformKey k then
        (let st = map_option (heap w) (FX w el);
             f = (case st of None \<Rightarrow> [] | Some s \<Rightarrow> st_to s);
             fr = (case st of None \<Rightarrow> [] | Some s \<Rightarrow> st_from s);
             x = (if k = ''x'' then v else chan f fr ''x'' 0);
             y = (if k = ''y'' then v else chan f fr ''y'' 0);
             s = (if k = ''scale'' then v else chan f fr ''scale'' 1);
             r = (if k = ''rotate'' then v else chan f fr ''rotate'' 0)
         in setStyle el ''transform'' (Transform x y s r) w)
      else if startsWith ''--'' k then setStyle el k (Num v) w
      else setStyle el k (Px v) w)"

subsection \<open>cancel, tweenElement and the frame callback\<close>

definition cancel :: "elem \<Rightarrow> world \<Rightarrow> world" where
  "cancel el w =
     (case FX w el of
        None \<Rightarrow> w
      | Some a \<Rightarrow>
          (let w1 = setState a ((heap w a)\<lparr>stop := True\<rparr>) w;
               w2 = (case raf (heap w1 a) of
                       None \<Rightarrow> w1
                     | Some h \<Rightarrow> if h \<noteq> 0 then cancelAnimationFrame h w1 else w1)
           in w2\<lparr>FX := (FX w2)(el := None)\<rparr>))"

text \<open>The completion callback of \<open>fxFade\<close>.\<close>

fun run_done :: "done_cb \<Rightarrow> world \<Rightarrow> world" where
  "run_done (FadeDone el target) w =
     (let w1 = setStyle el ''willChange'' (Str '''') w
      in if \<not> target then setStyle el ''display'' (Str ''none'') w1 else w1)"

text \<open>\<open>Math.min(1, (now() - start) / Math.max(1, ms))\<close>\<close>

definition progress :: "real \<Rightarrow> real \<Rightarrow> real \<Rightarrow> real" where
  "progress nw st ms = min 1 ((nw - st) / max 1 ms)"

text \<open>
  \<open>from[k]!\<close> and \<open>dst[k]!\<close>: both objects have the keys being iterated, so the lookup
  always succeeds; the default is never used by a loop that \<open>tweenElement\<close> created.
\<close>

definition num_at :: "(string \<times> real) list \<Rightarrow> string \<Rightarrow> real" where
  "num_at m k = (case map_of m k of Some v \<Rightarrow> v | None \<Rightarrow> 0)"

definition interp :: "loop \<Rightarrow> real \<Rightarrow> string \<Rightarrow> real" where
  "interp lp e k = num_at (l_from lp) k + (num_at (l_dst lp) k - num_at (l_from lp) k) * e"

text \<open>The loop \<open>for (const k of Object.keys(dst))\<close> of the frame callback.\<close>

fun frameWrites :: "loop \<Rightarrow> real \<Rightarrow> string list \<Rightarrow> world \<Rightarrow> world" where
  "frameWrites lp e [] w = w"
| "frameWrites lp e (k # ks) w =
     frameWrites lp e ks
       (logEvent (Wrote (l_st lp) (l_el lp) k (interp lp e k)) (write (l_el lp) k (interp lp e k) w))"

definition step :: "loop \<Rightarrow> world \<Rightarrow> world" where
  "step lp w =
     (if stop (heap w (l_st lp)) then w
      else
        (let t = progress (now w) (l_start lp) (l_ms lp);
             e = l_easing lp t;
             w1 = frameWrites lp e (map fst (l_dst lp)) w
         in if t < 1 then
              (let (h, w2) = requestAnimationFrame lp w1
               in setState (l_st lp) ((heap w2 (l_st lp))\<lparr>raf := Some h\<rparr>) w2)
            else
              (let w2 = w1\<lparr>FX := (FX w1)((l_el lp) := None)\<rparr>
               in case l_onDone lp of
                    None \<Rightarrow> w2
                  | Some cb \<Rightarrow> run_done cb (logEvent (Called (l_st lp)) w2))))"

definition tweenElement ::
  "(string \<Rightarrow> real option) \<Rightarrow> elem \<Rightarrow> Tweenable \<Rightarrow> real \<Rightarrow> Easing \<Rightarrow> done_cb option \<Rightarrow> world \<Rightarrow> world" where
  "tweenElement pf el tw ms easing onDone w0 =
     (let w1 = cancel el w0;
          frm = map (\<lambda>(k, t). (k, readStyle pf w1 el k)) tw;
          dst = tw;
          a = nextAddr w1;
          w2 = (setState a \<lparr>raf = None, start = None, stop = False, st_from = frm, st_to = dst\<rparr> w1)
                 \<lparr>nextAddr := Suc a\<rparr>;
          w3 = w2\<lparr>FX := (FX w2)(el := Some a)\<rparr>;
          st0 = now w3;
          w4 = setState a ((heap w3 a)\<lparr>start := Some st0\<rparr>) w3;
          lp = \<lparr>l_el = el, l_st = a, l_start = st0, l_ms = ms, l_easing = easing,
                l_from = frm, l_dst = dst, l_onDone = onDone\<rparr>;
          (h, w5) = requestAnimationFrame lp w4
      in setState a ((heap w5 a)\<lparr>raf := Some h\<rparr>) w5)"

subsection \<open>Public helpers\<close>

text \<open>
  Each helper acts on \<open>d.first\<close>, the first element of the set, and returns \<open>d\<close> itself;
  the model returns the page. An optional argument is an \<open>option\<close>, with the default
  of the signature.
\<close>

definition first :: "Dom \<Rightarrow> elem option" where
  "first d = (case d of [] \<Rightarrow> None | e # _ \<Rightarrow> Some e)"

definition orDefault :: "'a \<Rightarrow> 'a option \<Rightarrow> 'a" where
  "orDefault d x = (case x of None \<Rightarrow> d | Some v \<Rightarrow> v)"

definition fxTo ::
  "(string \<Rightarrow> real option) \<Rightarrow> Dom \<Rightarrow> Tweenable \<Rightarrow> real option \<Rightarrow> Easing option \<Rightarrow> world \<Rightarrow> world" where
  "fxTo pf d tw ms easing w =
     (case first d of
        None \<Rightarrow> w
      | Some el \<Rightarrow> tweenElement pf el tw (orDefault 300 ms) (orDefault ease_inout easing) None w)"

text \<open>\<open>show === undefined ? parseFloat(getComputedStyle(el).opacity || "1") < 0.5 : show\<close>\<close>

definition fadeTarget :: "(string \<Rightarrow> real option) \<Rightarrow> world \<Rightarrow> elem \<Rightarrow> bool option \<Rightarrow> bool" where
  "fadeTarget pf w el shw =
     (case shw of
        None \<Rightarrow> (case pf (orElse (computed w el ''opacity'') ''1'') of
                   None \<Rightarrow> False
                 | Some v \<Rightarrow> v < 1 / 2)
      | Some b \<Rightarrow> b)"

definition fxFade ::
  "(string \<Rightarrow> real option) \<Rightarrow> Dom \<Rightarrow> real option \<Rightarrow> bool option \<Rightarrow> Easing option \<Rightarrow> world \<Rightarrow> world" where
  "fxFade pf d ms shw easing w =
     (case first d of
        None \<Rightarrow> w
      | Some el \<Rightarrow>
          (let target = fadeTarget pf w el shw;
               w1 = setStyle el ''willChange'' (Str ''opacity'') w;
               w2 = (if target \<and> style w1 el ''display'' = Str ''none''
                     then setStyle el ''display'' (Str '''') w1 else w1)
           in tweenElement pf el [(''opacity'', if target then 1 else 0)]
                (orDefault 300 ms) (orDefault ease_inout easing) (Some (FadeDone el target)) w2))"

definition fxMove ::
  "(string \<Rightarrow> real option) \<Rightarrow> Dom \<Rightarrow> real option \<Rightarrow> real option \<Rightarrow> real option \<Rightarrow> Easing option \<Rightarrow> world \<Rightarrow> world" where
  "fxMove pf d x y ms easing w =
     (case first d of
        None \<Rightarrow> w
      | Some el \<Rightarrow>
          tweenElement pf el [(''x'', orDefault 0 x), (''y'', orDefault 0 y)]
            (orDefault 300 ms) (orDefault ease_inout easing) None w)"

definition fxScale ::
  "(string \<Rightarrow> real option) \<Rightarrow> Dom \<Rightarrow> real option \<Rightarrow> real option \<Rightarrow> Easing option \<Rightarrow> world \<Rightarrow> world" where
  "fxScale pf d s ms easing w =
     (case first d of
        None \<Rightarrow> w
      | Some el \<Rightarrow>
          tweenElement pf el [(''scale'', orDefault 1 s)]
            (orDefault 300 ms) (orDefault ease_inout easing) None w)"

definition fxRotate ::
  "(string \<Rightarrow> real option) \<Rightarrow> Dom \<Rightarrow> real option \<Rightarrow> real option \<Rightarrow> Easing option \<Rightarrow> world \<Rightarrow> world" where
  "fxRotate pf d deg ms easing w =
     (case first d of
        None \<Rightarrow> w
      | Some el \<Rightarrow>
          tweenElement pf el [(''rotate'', orDefault 0 deg)]
            (orDefault 300 ms) (orDefault ease_inout easing) None w)"

definition fxStop :: "Dom \<Rightarrow> world \<Rightarrow> world" where
  "fxStop d w = (case first d of None \<Rightarrow> w | Some el \<Rightarrow> cancel el w)"

subsection \<open>The page as a transition system\<close>

text \<open>
  What can happen to a page: a call of one of the six methods, the host running the
  pending frame callback with a given handle (in any order and at any time: every
  schedule of the browser is one of these), the clock advancing, and the environment
  changing computed styles or another script assigning an inline style property.
\<close>

datatype op =
    To Dom Tweenable "real option" "Easing option"
  | Fade Dom "real option" "bool option" "Easing option"
  | Move Dom "real option" "real option" "real option" "Easing option"
  | Scale Dom "real option" "real option" "Easing option"
  | Rotate Dom "real option" "real option" "Easing option"
  | Stop Dom
  | Frame handle
  | Advance real
  | Cascade "elem \<Rightarrow> string \<Rightarrow> string"
  | Inline elem string string

definition runFrame :: "handle \<Rightarrow> world \<Rightarrow> world" where
  "runFrame h w =
     (case map_of (pending w) h of
        None \<Rightarrow> w
      | Some lp \<Rightarrow> step lp (w\<lparr>pending := filter (\<lambda>p. fst p \<noteq> h) (pending w)\<rparr>))"

fun exec :: "(string \<Rightarrow> real option) \<Rightarrow> op \<Rightarrow> world \<Rightarrow> world" where
  "exec pf (To d tw ms easing) w = fxTo pf d tw ms easing w"
| "exec pf (Fade d ms shw easing) w = fxFade pf d ms shw easing w"
| "exec pf (Move d x y ms easing) w = fxMove pf d x y ms easing w"
| "exec pf (Scale d s ms easing) w = fxScale pf d s ms easing w"
| "exec pf (Rotate d deg ms easing) w = fxRotate pf d deg ms easing w"
| "exec pf (Stop d) w = fxStop d w"
| "exec pf (Frame h) w = runFrame h w"
| "exec pf (Advance dt) w = w\<lparr>clock := clock w + max 0 dt\<rparr>"
| "exec pf (Cascade cs) w = w\<lparr>computed := cs\<rparr>"
| "exec pf (Inline el p v) w = setStyle el p (Str v) w"

fun run :: "(string \<Rightarrow> real option) \<Rightarrow> op list \<Rightarrow> world \<Rightarrow> world" where
  "run pf [] w = w"
| "run pf (x # xs) w = run pf xs (exec pf x w)"

text \<open>A freshly loaded page: nothing registered, nothing scheduled.\<close>

definition blank :: FXState where
  "blank = \<lparr>raf = None, start = None, stop = False, st_from = [], st_to = []\<rparr>"

definition init :: "(elem \<Rightarrow> string \<Rightarrow> cssval) \<Rightarrow> (elem \<Rightarrow> string \<Rightarrow> string) \<Rightarrow> real \<Rightarrow> world" where
  "init sty cs t0 =
     \<lparr>style = sty, computed = cs, FX = (\<lambda>_. None), heap = (\<lambda>_. blank), nextAddr = 0,
      pending = [], rafCounter = 0, clock = t0, trace = []\<rparr>"

subsection \<open>Example data\<close>

text \<open>
  A \<open>parseFloat\<close> that knows a few literals, and a page whose element 0 has computed
  opacity 0.25 and a top margin of 12px.
\<close>

definition pf0 :: "string \<Rightarrow> real option" where
  "pf0 s = (if s = ''0'' then Some 0 else if s = ''1'' then Some 1
            else if s = ''0.25'' then Some (1 / 4) else if s = ''12px'' then Some 12 else None)"

definition page0 :: world where
  "page0 = init (\<lambda>el p. Str '''')
     (\<lambda>el p. if p = ''opacity'' then ''0.25'' else if p = ''margin-top'' then ''12px''
              else if p = ''width'' then ''auto'' else '''') 0"

subsection \<open>Well-formed pages\<close>

text \<open>
  The invariant of the engine. Pending frame callbacks have distinct, positive handles
  issued by the counter; each belongs to the state registered for its element, which
  remembers the handle and the channel maps of the loop; each registered state is
  allocated, not stopped and has its frame callback pending; no state object is
  registered for two elements.
\<close>

definition page_ok :: "world \<Rightarrow> bool" where
  "page_ok w =
     (distinct (map fst (pending w))
      \<and> (\<forall>(h, lp) \<in> set (pending w).
            0 < h \<and> h \<le> rafCounter w \<and> FX w (l_el lp) = Some (l_st lp)
            \<and> raf (heap w (l_st lp)) = Some h
            \<and> st_from (heap w (l_st lp)) = l_from lp \<and> st_to (heap w (l_st lp)) = l_dst lp
            \<and> map fst (l_from lp) = map fst (l_dst lp))
      \<and> (\<forall>el a. FX w el = Some a \<longrightarrow>
            a < nextAddr w \<and> \<not> stop (heap w a)
            \<and> (\<exists>h lp. (h, lp) \<in> set (pending w) \<and> l_el lp = el \<and> l_st lp = a))
      \<and> (\<forall>el el' a. FX w el = Some a \<longrightarrow> FX w el' = Some a \<longrightarrow> el = el'))"

text \<open>The frame loops that are scheduled for an element.\<close>

definition loops_of :: "elem \<Rightarrow> world \<Rightarrow> (handle \<times> loop) list" where
  "loops_of el w = filter (\<lambda>p. l_el (snd p) = el) (pending w)"

subsection \<open>Auxiliary notions for the temporal claims\<close>

text \<open>The element a method call acts on: \<open>d.first\<close> of its selection.\<close>

fun target_of :: "op \<Rightarrow> elem option" where
  "target_of (To d tw ms easing) = first d"
| "target_of (Fade d ms shw easing) = first d"
| "target_of (Move d x y ms easing) = first d"
| "target_of (Scale d s ms easing) = first d"
| "target_of (Rotate d deg ms easing) = first d"
| "target_of (Stop d) = first d"
| "target_of (Frame h) = None"
| "target_of (Advance dt) = None"
| "target_of (Cascade cs) = None"
| "target_of (Inline el p v) = None"

text \<open>
  Between \<open>w\<close> and \<open>w'\<close> the loop of state \<open>a\<close> stayed stopped and logged nothing.
\<close>

definition silent :: "addr \<Rightarrow> world \<Rightarrow> world \<Rightarrow> bool" where
  "silent a w w' =
     (a < nextAddr w' \<and> stop (heap w' a)
      \<and> (\<exists>evs. trace w' = trace w @ evs \<and> (\<forall>e \<in> set evs. ev_loop e \<noteq> a)))"

text \<open>Example schedules.\<close>

definition ops4 :: "op list" where
  "ops4 = [Move [0] (Some 10) (Some 0) (Some 300) (Some ease_linear), Advance 100,
           Frame 1, Fade [1, 0] (Some 200) None None]"

definition before3 :: "op list" where
  "before3 = [Move [0] (Some 10) (Some 0) (Some 300) (Some ease_linear), Advance 100, Frame 1]"

definition after3 :: "op list" where
  "after3 = [Advance 150, Frame 2, Frame 3]"

definition ops7 :: "op list" where
  "ops7 = [Move [0] (Some 10) (Some 0) (Some 300) (Some ease_linear), Advance 300]"

subsection \<open>Reading a transform\<close>

text \<open>
  The components of a transform value, the identity transform, and the value that
  \<open>write\<close> composes for a transform channel from a state.
\<close>

fun component :: "string \<Rightarrow> cssval \<Rightarrow> real option" where
  "component k (Transform x y s r) =
     (if k = ''x'' then Some x else if k = ''y'' then Some y
      else if k = ''scale'' then Some s else if k = ''rotate'' then Some r else None)"
| "component k (Str v) = None"
| "component k (Num v) = None"
| "component k (Px v) = None"

definition identity_of :: "string \<Rightarrow> real" where
  "identity_of k = (if k = ''scale'' then 1 else 0)"

definition composed :: "FXState \<Rightarrow> string \<Rightarrow> real \<Rightarrow> cssval" where
  "composed st k v =
     Transform (if k = ''x'' then v else chan (st_to st) (st_from st) ''x'' 0)
               (if k = ''y'' then v else chan (st_to st) (st_from st) ''y'' 0)
               (if k = ''scale'' then v else chan (st_to st) (st_from st) ''scale'' 1)
               (if k = ''rotate'' then v else chan (st_to st) (st_from st) ''rotate'' 0)"

definition ops10 :: "op list" where
  "ops10 = [Move [0] (Some 10) (Some 24) (Some 300) (Some ease_linear), Advance 100]"

definition loop10 :: loop where
  "loop10 = \<lparr>l_el = 0, l_st = 0, l_start = 0, l_ms = 300, l_easing = ease_linear,
      l_from = [(''x'', 0), (''y'', 0)], l_dst = [(''x'', 10), (''y'', 24)], l_onDone = None\<rparr>"

definition move1 :: "op list" where
  "move1 = [Move [0] (Some 10) (Some 0) (Some 300) (Some ease_linear), Advance 300, Frame 1]"

definition scale1 :: "op list" where
  "scale1 = [Scale [0] (Some 2) (Some 300) (Some ease_linear), Advance 150]"

definition loop1 :: loop where
  "loop1 = \<lparr>l_el = 0, l_st = 1, l_start = 300, l_ms = 300, l_easing = ease_linear,
      l_from = [(''scale'', 1)], l_dst = [(''scale'', 2)], l_onDone = None\<rparr>"

subsection \<open>Example data for the final frame and for fading\<close>

text \<open>A custom easing that ends at one half, schedules, and a page with a hidden element.\<close>

definition ease_half :: Easing where
  "ease_half t = t / 2"

definition ops2 :: "op list" where
  "ops2 = [To [0] [(''opacity'', 1)] (Some 100) (Some ease_half), Advance 100]"

definition ops2w :: "op list" where
  "ops2w = [Fade [0] (Some 200) (Some False) (Some ease_linear), Advance 200]"

definition loop2w :: loop where
  "loop2w = \<lparr>l_el = 0, l_st = 0, l_start = 0, l_ms = 200, l_easing = ease_linear,
      l_from = [(''opacity'', 1 / 4)], l_dst = [(''opacity'', 0)],
      l_onDone = Some (FadeDone 0 False)\<rparr>"




subsection \<open>Example data for the end of a fade and for frame progress\<close>


definition ops6 :: "op list" where
  "ops6 = [To [0] [(''--p'', 1)] (Some 300) (Some ease_linear), Advance 100]"

definition loop6 :: loop where
  "loop6 = \<lparr>l_el = 0, l_st = 0, l_start = 0, l_ms = 300, l_easing = ease_linear,
      l_from = [(''--p'', 0)], l_dst = [(''--p'', 1)], l_onDone = None\<rparr>"

subsection \<open>Loops begin in the past\<close>

text \<open>Every scheduled loop began at a time that the clock has reached.\<close>

definition started :: "world \<Rightarrow> bool" where
  "started w = (\<forall>p \<in> set (pending w). l_start (snd p) \<le> clock w)"

section \<open>Normalised progress\<close>

text \<open>
  Arithmetic of the expression \<open>min 1 (elapsed / max 1 d)\<close>: it never exceeds 1, it
  does not decrease when the clock does not go back, it stays below 1 as long as less
  than a positive duration \<open>d\<close> has elapsed and it is exactly 1 once \<open>max 1 d\<close> has
  elapsed (for \<open>d \<ge> 1\<close>: exactly from \<open>d\<close> on).
\<close>

lemma progress_props:
  "progress nw st d = min 1 ((nw - st) / max 1 d)
   \<and> progress nw st d \<le> 1
   \<and> (nw \<le> nw' \<longrightarrow> progress nw st d \<le> progress nw' st d)
   \<and> (0 < d \<longrightarrow> nw - st < d \<longrightarrow> progress nw st d < 1)
   \<and> (max 1 d \<le> nw - st \<longrightarrow> progress nw st d = 1)
   \<and> (1 \<le> d \<longrightarrow> (progress nw st d = 1) = (d \<le> nw - st))
   \<and> 0 < max 1 d
   \<and> progress nw st 0 = min 1 (nw - st)"
proof -
  have pos: "0 < max 1 d" by simp
  have mono: "nw \<le> nw' \<Longrightarrow> progress nw st d \<le> progress nw' st d"
    unfolding progress_def using pos
    by (intro min.mono order_refl divide_right_mono) auto
  have before: "0 < d \<Longrightarrow> nw - st < d \<Longrightarrow> progress nw st d < 1"
    unfolding progress_def using pos by (simp add: min_less_iff_disj pos_divide_less_eq)
  have reach: "max 1 d \<le> nw - st \<Longrightarrow> progress nw st d = 1"
    unfolding progress_def using pos by (simp add: min_def pos_le_divide_eq)
  have iff: "1 \<le> d \<Longrightarrow> (progress nw st d = 1) = (d \<le> nw - st)"
    unfolding progress_def by (auto simp: min_def max_def pos_le_divide_eq split: if_splits)
  show ?thesis using mono before reach iff pos
    by (simp add: progress_def)
qed

section \<open>Reading the starting values\<close>

lemma kebab_marginTop: "kebab ''marginTop'' = ''margin-top''"
  by code_simp

lemma kebab_width: "kebab ''width'' = ''width''"
  by code_simp

text \<open>
  C8. The read rule that captures \<open>from\<close>: 0 for \<open>x\<close>, \<open>y\<close> and \<open>rotate\<close>, 1 for
  \<open>scale\<close>, the parsed computed opacity for \<open>opacity\<close> (the literal 1 stands in for an
  empty computed value), and for every other channel the parsed computed value of the
  property (custom properties by their own name, the others in kebab case; the literal
  0 stands in for an empty value). Whatever does not parse reads as 0; no case fails.
\<close>

theorem C8_readStyle:
  "readStyle pf w el ''x'' = 0
   \<and> readStyle pf w el ''y'' = 0
   \<and> readStyle pf w el ''rotate'' = 0
   \<and> readStyle pf w el ''scale'' = 1
   \<and> readStyle pf w el ''opacity'' =
        (case pf (if computed w el ''opacity'' = [] then ''1'' else computed w el ''opacity'') of
           None \<Rightarrow> 0 | Some v \<Rightarrow> v)
   \<and> (k \<notin> {''opacity'', ''x'', ''y'', ''scale'', ''rotate''} \<longrightarrow>
        readStyle pf w el k =
          (case pf (if computed w el (if startsWith ''--'' k then k else kebab k) = [] then ''0''
                    else computed w el (if startsWith ''--'' k then k else kebab k)) of
             None \<Rightarrow> 0 | Some v \<Rightarrow> v))"
  by (simp add: readStyle_def numOrZero_def orElse_def Let_def)

theorem C8_readStyle_witness:
  "readStyle pf0 page0 0 ''opacity'' = 1 / 4
   \<and> readStyle pf0 page0 0 ''marginTop'' = 12
   \<and> readStyle pf0 page0 0 ''width'' = 0
   \<and> readStyle pf0 page0 0 ''--gap'' = 0"
  using C8_readStyle [of pf0 page0 0 "''marginTop''"] C8_readStyle [of pf0 page0 0 "''width''"]
    C8_readStyle [of pf0 page0 0 "''--gap''"]
  by (simp add: pf0_def page0_def init_def startsWith_def kebab_marginTop kebab_width)

section \<open>Cancellation\<close>

lemma FX_cancel: "FX (cancel el w) el = None"
  by (simp add: cancel_def cancelAnimationFrame_def setState_def Let_def split: option.splits)

lemma cancel_absent: "FX w el = None \<Longrightarrow> cancel el w = w"
  by (simp add: cancel_def)

text \<open>
  C9. Cancelling a target that has no animation state returns the page as it is, and so
  does \<open>stop()\<close>, also on an empty selection. Cancelling twice is cancelling once. The
  functions are total: there is no failing branch.
\<close>

theorem C9_cancel_noop:
  "(FX w el = None \<longrightarrow> cancel el w = w \<and> fxStop (el # d) w = w)
   \<and> fxStop [] w = w
   \<and> cancel el (cancel el w) = cancel el w
   \<and> fxStop d' (fxStop d' w) = fxStop d' w"
  by (auto simp: fxStop_def first_def cancel_absent FX_cancel split: list.splits)

theorem C9_cancel_noop_witness:
  "cancel 0 page0 = page0 \<and> fxStop [0, 1] page0 = page0
   \<and> cancel 0 (cancel 0 (run pf0 [Move [0] (Some 10) None None None] page0))
       = cancel 0 (run pf0 [Move [0] (Some 10) None None None] page0)
   \<and> FX (run pf0 [Move [0] (Some 10) None None None] page0) 0 = Some 0
   \<and> FX (cancel 0 (run pf0 [Move [0] (Some 10) None None None] page0)) 0 = None"
  using C9_cancel_noop [of page0 0 "[1]" "[0]"]
    C9_cancel_noop [of "run pf0 [Move [0] (Some 10) None None None] page0" 0 "[]" "[0]"]
  apply (simp add: FX_cancel)
  apply (simp add: page0_def init_def fxMove_def first_def tweenElement_def cancel_def
      requestAnimationFrame_def setState_def Let_def)
  done

section \<open>The invariant is kept by everything that can happen\<close>

lemma write_fields [simp]:
  "FX (write el k v w) = FX w" "heap (write el k v w) = heap w"
  "pending (write el k v w) = pending w" "rafCounter (write el k v w) = rafCounter w"
  "nextAddr (write el k v w) = nextAddr w" "clock (write el k v w) = clock w"
  "computed (write el k v w) = computed w" "trace (write el k v w) = trace w"
  by (simp_all add: write_def setStyle_def Let_def)

lemma frameWrites_fields [simp]:
  "FX (frameWrites lp e ks w) = FX w" "heap (frameWrites lp e ks w) = heap w"
  "pending (frameWrites lp e ks w) = pending w" "rafCounter (frameWrites lp e ks w) = rafCounter w"
  "nextAddr (frameWrites lp e ks w) = nextAddr w" "clock (frameWrites lp e ks w) = clock w"
  "computed (frameWrites lp e ks w) = computed w"
  by (induction ks arbitrary: w; simp add: logEvent_def)+

lemma frameWrites_trace:
  "trace (frameWrites lp e ks w) = trace w @ map (\<lambda>k. Wrote (l_st lp) (l_el lp) k (interp lp e k)) ks"
  by (induction ks arbitrary: w) (simp_all add: logEvent_def)

lemma run_done_fields [simp]:
  "FX (run_done cb w) = FX w" "heap (run_done cb w) = heap w"
  "pending (run_done cb w) = pending w" "rafCounter (run_done cb w) = rafCounter w"
  "nextAddr (run_done cb w) = nextAddr w" "clock (run_done cb w) = clock w"
  "computed (run_done cb w) = computed w" "trace (run_done cb w) = trace w"
  by (cases cb; simp add: setStyle_def Let_def)+

lemma page_ok_cong:
  "FX w' = FX w \<Longrightarrow> heap w' = heap w \<Longrightarrow> pending w' = pending w \<Longrightarrow>
   rafCounter w' = rafCounter w \<Longrightarrow> nextAddr w' = nextAddr w \<Longrightarrow> page_ok w' = page_ok w"
  by (simp add: page_ok_def)

lemma page_ok_init: "page_ok (init sty cs t0)"
  by (simp add: page_ok_def init_def)

lemma page_ok_pendingD:
  assumes "page_ok w" "(h, lp) \<in> set (pending w)"
  shows "0 < h" "h \<le> rafCounter w" "FX w (l_el lp) = Some (l_st lp)"
    "raf (heap w (l_st lp)) = Some h" "st_from (heap w (l_st lp)) = l_from lp"
    "st_to (heap w (l_st lp)) = l_dst lp" "map fst (l_from lp) = map fst (l_dst lp)"
  using assms unfolding page_ok_def by blast+

lemma page_ok_FXD:
  assumes "page_ok w" "FX w el = Some a"
  shows "a < nextAddr w" "\<not> stop (heap w a)"
    "\<exists>h lp. (h, lp) \<in> set (pending w) \<and> l_el lp = el \<and> l_st lp = a"
  using assms unfolding page_ok_def by blast+

lemma page_ok_inj: "page_ok w \<Longrightarrow> FX w el = Some a \<Longrightarrow> FX w el' = Some a \<Longrightarrow> el = el'"
  unfolding page_ok_def by blast

lemma page_ok_distinct: "page_ok w \<Longrightarrow> distinct (map fst (pending w))"
  unfolding page_ok_def by blast

text \<open>What cancel does on a well-formed page.\<close>

lemma cancel_registered:
  assumes ok: "page_ok w" and reg: "FX w el = Some a"
  shows "\<exists>h lp. (h, lp) \<in> set (pending w) \<and> l_el lp = el \<and> l_st lp = a \<and>
           cancel el w = w\<lparr>heap := (heap w)(a := (heap w a)\<lparr>stop := True\<rparr>),
                           pending := filter (\<lambda>p. fst p \<noteq> h) (pending w),
                           FX := (FX w)(el := None)\<rparr>"
proof -
  from page_ok_FXD(3)[OF ok reg] obtain h lp where
    mem: "(h, lp) \<in> set (pending w)" and el: "l_el lp = el" and st: "l_st lp = a" by blast
  from page_ok_pendingD[OF ok mem] st have h: "0 < h" "raf (heap w a) = Some h" by auto
  have "cancel el w = w\<lparr>heap := (heap w)(a := (heap w a)\<lparr>stop := True\<rparr>),
                           pending := filter (\<lambda>p. fst p \<noteq> h) (pending w),
                           FX := (FX w)(el := None)\<rparr>"
    using reg h by (simp add: cancel_def setState_def cancelAnimationFrame_def Let_def)
  with mem el st show ?thesis by blast
qed

lemma page_ok_I:
  assumes "distinct (map fst (pending w))"
    and "\<And>h lp. (h, lp) \<in> set (pending w) \<Longrightarrow>
            0 < h \<and> h \<le> rafCounter w \<and> FX w (l_el lp) = Some (l_st lp)
            \<and> raf (heap w (l_st lp)) = Some h
            \<and> st_from (heap w (l_st lp)) = l_from lp \<and> st_to (heap w (l_st lp)) = l_dst lp
            \<and> map fst (l_from lp) = map fst (l_dst lp)"
    and "\<And>el a. FX w el = Some a \<Longrightarrow>
            a < nextAddr w \<and> \<not> stop (heap w a)
            \<and> (\<exists>h lp. (h, lp) \<in> set (pending w) \<and> l_el lp = el \<and> l_st lp = a)"
    and "\<And>el el' a. FX w el = Some a \<Longrightarrow> FX w el' = Some a \<Longrightarrow> el = el'"
  shows "page_ok w"
  using assms unfolding page_ok_def by blast

lemma pending_unique:
  "page_ok w \<Longrightarrow> (h, lp) \<in> set (pending w) \<Longrightarrow> (h, lp') \<in> set (pending w) \<Longrightarrow> lp' = lp"
  using page_ok_distinct eq_key_imp_eq_value by metis

lemma page_ok_cancel:
  assumes ok: "page_ok w"
  shows "page_ok (cancel el w)"
proof (cases "FX w el")
  case None
  then show ?thesis using ok by (simp add: cancel_absent)
next
  case (Some a)
  let ?w = "w\<lparr>heap := (heap w)(a := (heap w a)\<lparr>stop := True\<rparr>),
              pending := filter (\<lambda>p. fst p \<noteq> h) (pending w),
              FX := (FX w)(el := None)\<rparr>"
  from cancel_registered[OF ok Some] obtain h lp where
    mem: "(h, lp) \<in> set (pending w)" and el: "l_el lp = el" and st: "l_st lp = a" and
    eq: "cancel el w = w\<lparr>heap := (heap w)(a := (heap w a)\<lparr>stop := True\<rparr>),
                           pending := filter (\<lambda>p. fst p \<noteq> h) (pending w),
                           FX := (FX w)(el := None)\<rparr>" by blast
  have dist: "distinct (map fst (pending w))" by (rule page_ok_distinct[OF ok])
  have other: "l_st lp' \<noteq> a \<and> l_el lp' \<noteq> el"
    if m: "(h', lp') \<in> set (pending w)" and ne: "h' \<noteq> h" for h' lp'
  proof -
    have r: "raf (heap w (l_st lp')) = Some h'" "FX w (l_el lp') = Some (l_st lp')"
      using page_ok_pendingD[OF ok m] by auto
    have r0: "raf (heap w a) = Some h" using page_ok_pendingD(4)[OF ok mem] st by simp
    have "l_st lp' \<noteq> a" using r(1) r0 ne by auto
    moreover have "l_el lp' \<noteq> el" using r(2) Some \<open>l_st lp' \<noteq> a\<close> by auto
    ultimately show ?thesis by simp
  qed
  show ?thesis
    unfolding eq
  proof (rule page_ok_I, goal_cases)
    case 1
    show ?case using dist by (simp add: distinct_map_filter)
  next
    case (2 h' lp')
    then have m: "(h', lp') \<in> set (pending w)" and ne: "h' \<noteq> h" by auto
    show ?case using page_ok_pendingD[OF ok m] other[OF m ne] by simp
  next
    case (3 el' a')
    then have reg: "FX w el' = Some a'" and ne: "el' \<noteq> el" by (auto split: if_splits)
    from page_ok_FXD[OF ok reg] obtain h' lp' where
      l: "a' < nextAddr w" "\<not> stop (heap w a')" "(h', lp') \<in> set (pending w)"
         "l_el lp' = el'" "l_st lp' = a'" by blast
    have "a' \<noteq> a" using page_ok_inj[OF ok reg, of el] Some ne by auto
    moreover have "h' \<noteq> h" using pending_unique[OF ok mem] l(3,4) el ne by auto
    ultimately show ?case using l by auto
  next
    case (4 el1 el2 a')
    then show ?case using page_ok_inj[OF ok] by (auto split: if_splits)
  qed
qed

lemma page_ok_fresh:
  assumes ok: "page_ok w"
  shows "(h, lp) \<in> set (pending w) \<Longrightarrow> l_st lp < nextAddr w"
  using page_ok_pendingD(3)[OF ok] page_ok_FXD(1)[OF ok] by blast

lemma page_ok_tweenElement:
  assumes ok0: "page_ok w0"
  shows "page_ok (tweenElement pf el tw ms easing onDone w0)"
proof -
  define w where "w = cancel el w0"
  have ok: "page_ok w" unfolding w_def by (rule page_ok_cancel[OF ok0])
  have none: "FX w el = None" unfolding w_def by (rule FX_cancel)
  define frm where "frm = map (\<lambda>(k, t). (k, readStyle pf w el k)) tw"
  define a where "a = nextAddr w"
  define h where "h = Suc (rafCounter w)"
  define lp where "lp = \<lparr>l_el = el, l_st = a, l_start = now w, l_ms = ms, l_easing = easing,
                l_from = frm, l_dst = tw, l_onDone = onDone\<rparr>"
  have eq: "tweenElement pf el tw ms easing onDone w0 =
      w\<lparr>heap := (heap w)(a := \<lparr>raf = Some h, start = Some (now w), stop = False,
                                st_from = frm, st_to = tw\<rparr>),
        nextAddr := Suc a, FX := (FX w)(el := Some a),
        pending := pending w @ [(h, lp)], rafCounter := h\<rparr>"
    by (simp add: tweenElement_def Let_def w_def[symmetric] frm_def[symmetric] a_def[symmetric]
        setState_def requestAnimationFrame_def now_def h_def[symmetric] lp_def)
  have keys: "map fst frm = map fst tw" by (simp add: frm_def case_prod_unfold comp_def)
  show ?thesis unfolding eq
  proof (rule page_ok_I, goal_cases)
    case 1
    have "h \<notin> fst ` set (pending w)" using page_ok_pendingD(2)[OF ok] h_def by fastforce
    then show ?case using page_ok_distinct[OF ok] by simp
  next
    case (2 h' lp')
    show ?case
    proof (cases "(h', lp') \<in> set (pending w)")
      case True
      have "l_st lp' \<noteq> a" using page_ok_fresh[OF ok True] a_def by simp
      moreover have "l_el lp' \<noteq> el" using page_ok_pendingD(3)[OF ok True] none by auto
      ultimately show ?thesis using page_ok_pendingD[OF ok True] h_def by simp
    next
      case False
      with 2 have "h' = h" "lp' = lp" by auto
      then show ?thesis using keys by (simp add: lp_def h_def)
    qed
  next
    case (3 el' a')
    show ?case
    proof (cases "el' = el")
      case True
      with 3 have "a' = a" by simp
      have "(h, lp) \<in> set (pending w @ [(h, lp)]) \<and> l_el lp = el \<and> l_st lp = a"
        by (simp add: lp_def)
      then show ?thesis using True \<open>a' = a\<close> by (auto simp: a_def)
    next
      case False
      with 3 have reg: "FX w el' = Some a'" by simp
      from page_ok_FXD[OF ok reg] have "a' \<noteq> a" by (simp add: a_def)
      then show ?thesis using page_ok_FXD[OF ok reg] a_def by auto
    qed
  next
    case (4 el1 el2 a')
    have nofresh: "FX w e \<noteq> Some a" for e
      using page_ok_FXD(1)[OF ok, of e a] a_def by auto
    from 4 show ?case using page_ok_inj[OF ok] nofresh
      by (auto split: if_splits)
  qed
qed


lemma page_ok_setStyle [simp]: "page_ok (setStyle el p v w) = page_ok w"
  by (rule page_ok_cong) (simp_all add: setStyle_def)

lemma page_ok_step:
  assumes ok: "page_ok w" and mem: "(h, lp) \<in> set (pending w)"
  shows "page_ok (step lp (w\<lparr>pending := filter (\<lambda>p. fst p \<noteq> h) (pending w)\<rparr>))"
proof -
  let ?P = "filter (\<lambda>p. fst p \<noteq> h) (pending w)"
  define a where "a = l_st lp"
  define el where "el = l_el lp"
  have reg: "FX w el = Some a" using page_ok_pendingD(3)[OF ok mem] by (simp add: a_def el_def)
  have nostop: "\<not> stop (heap w a)" using page_ok_FXD(2)[OF ok reg] .
  have other: "l_st lp' \<noteq> a \<and> l_el lp' \<noteq> el"
    if m: "(h', lp') \<in> set (pending w)" and ne: "h' \<noteq> h" for h' lp'
  proof -
    have r: "raf (heap w (l_st lp')) = Some h'" "FX w (l_el lp') = Some (l_st lp')"
      using page_ok_pendingD[OF ok m] by auto
    have r0: "raf (heap w a) = Some h" using page_ok_pendingD(4)[OF ok mem] a_def by simp
    have "l_st lp' \<noteq> a" using r(1) r0 ne by auto
    moreover have "l_el lp' \<noteq> el" using r(2) reg \<open>l_st lp' \<noteq> a\<close> by auto
    ultimately show ?thesis by simp
  qed
  have regother: "\<exists>h' lp'. (h', lp') \<in> set ?P \<and> l_el lp' = el' \<and> l_st lp' = a'"
    if r: "FX w el' = Some a'" and ne: "el' \<noteq> el" for el' a'
  proof -
    from page_ok_FXD(3)[OF ok r] obtain h' lp' where
      l: "(h', lp') \<in> set (pending w)" "l_el lp' = el'" "l_st lp' = a'" by blast
    have "h' \<noteq> h" using pending_unique[OF ok mem, of lp'] l ne el_def by auto
    then show ?thesis using l by auto
  qed
  define t where "t = progress (clock w) (l_start lp) (l_ms lp)"
  define w1 where "w1 = frameWrites lp (l_easing lp t) (map fst (l_dst lp)) (w\<lparr>pending := ?P\<rparr>)"
  have f1: "FX w1 = FX w" "heap w1 = heap w" "pending w1 = ?P" "rafCounter w1 = rafCounter w"
    "nextAddr w1 = nextAddr w" by (simp_all add: w1_def)
  show ?thesis
  proof (cases "t < 1")
    case True
    define h2 where "h2 = Suc (rafCounter w)"
    have eq: "step lp (w\<lparr>pending := ?P\<rparr>) =
        w1\<lparr>pending := ?P @ [(h2, lp)], rafCounter := h2,
           heap := (heap w)(a := (heap w a)\<lparr>raf := Some h2\<rparr>)\<rparr>"
      using nostop True
      by (simp add: step_def a_def[symmetric] now_def t_def[symmetric] Let_def w1_def[symmetric]
          requestAnimationFrame_def setState_def f1 h2_def)
    show ?thesis unfolding eq
    proof (rule page_ok_I, goal_cases)
      case 1
      have "h2 \<notin> fst ` set (pending w)" using page_ok_pendingD(2)[OF ok] h2_def by fastforce
      then show ?case using page_ok_distinct[OF ok] by (auto simp: distinct_map_filter)
    next
      case (2 h' lp')
      show ?case
      proof (cases "(h', lp') \<in> set ?P")
        case True
        then have m: "(h', lp') \<in> set (pending w)" and ne: "h' \<noteq> h" by auto
        show ?thesis using page_ok_pendingD[OF ok m] other[OF m ne] by (simp add: f1 h2_def)
      next
        case False
        with 2 have "h' = h2" "lp' = lp" by auto
        then show ?thesis using page_ok_pendingD[OF ok mem] by (simp add: f1 h2_def a_def)
      qed
    next
      case (3 el' a')
      then have r: "FX w el' = Some a'" by (simp add: f1)
      show ?case
      proof (cases "el' = el")
        case True
        then have "a' = a" using r reg by simp
        have "(h2, lp) \<in> set (?P @ [(h2, lp)]) \<and> l_el lp = el \<and> l_st lp = a"
          by (simp add: a_def el_def)
        then show ?thesis using True \<open>a' = a\<close> page_ok_FXD(1)[OF ok reg] nostop
          by (auto simp: f1)
      next
        case False
        have "a' \<noteq> a" using page_ok_inj[OF ok r, of el] reg False by auto
        then show ?thesis using regother[OF r False] page_ok_FXD(1,2)[OF ok r]
          by (auto simp: f1)
      qed
    next
      case (4 el1 el2 a')
      then show ?case using page_ok_inj[OF ok] by (simp add: f1)
    qed
  next
    case False
    define w2 where "w2 = w1\<lparr>FX := (FX w)(el := None)\<rparr>"
    have ok2: "page_ok w2"
    proof (rule page_ok_I, goal_cases)
      case 1
      show ?case using page_ok_distinct[OF ok] by (simp add: w2_def f1 distinct_map_filter)
    next
      case (2 h' lp')
      then have m: "(h', lp') \<in> set (pending w)" and ne: "h' \<noteq> h" by (auto simp: w2_def f1)
      show ?case using page_ok_pendingD[OF ok m] other[OF m ne] by (simp add: w2_def f1)
    next
      case (3 el' a')
      then have r: "FX w el' = Some a'" and ne: "el' \<noteq> el"
        by (auto simp: w2_def f1 split: if_splits)
      show ?case using regother[OF r ne] page_ok_FXD(1,2)[OF ok r] by (simp add: w2_def f1)
    next
      case (4 el1 el2 a')
      then show ?case using page_ok_inj[OF ok] by (auto simp: w2_def f1 split: if_splits)
    qed
    have eq: "step lp (w\<lparr>pending := ?P\<rparr>) =
        (case l_onDone lp of None \<Rightarrow> w2 | Some cb \<Rightarrow> run_done cb (logEvent (Called a) w2))"
      using nostop False unfolding a_def el_def w2_def t_def w1_def
      by (simp add: step_def now_def Let_def split: option.splits)
    have "page_ok (run_done cb (logEvent (Called a) w2))" for cb
      using ok2 by (subst page_ok_cong[of _ w2]) (simp_all add: logEvent_def)
    then show ?thesis unfolding eq using ok2 by (simp split: option.splits)
  qed
qed

lemma page_ok_runFrame: "page_ok w \<Longrightarrow> page_ok (runFrame h w)"
  by (auto simp: runFrame_def page_ok_step split: option.splits dest: map_of_SomeD)

lemma page_ok_exec: "page_ok w \<Longrightarrow> page_ok (exec pf x w)"
proof (cases x)
  case (Fade d ms shw easing)
  assume "page_ok w"
  then show ?thesis unfolding Fade
    by (simp add: fxFade_def Let_def page_ok_tweenElement split: option.splits)
next
  case (Advance dt)
  assume "page_ok w"
  then show ?thesis unfolding Advance
    by (simp add: page_ok_cong[of "w\<lparr>clock := clock w + max 0 dt\<rparr>" w])
next
  case (Cascade cs)
  assume "page_ok w"
  then show ?thesis unfolding Cascade
    by (simp add: page_ok_cong[of "w\<lparr>computed := cs\<rparr>" w])
qed (simp_all add: fxTo_def fxMove_def fxScale_def fxRotate_def fxStop_def page_ok_tweenElement
      page_ok_cancel page_ok_runFrame split: option.splits)

lemma page_ok_run: "page_ok w \<Longrightarrow> page_ok (run pf xs w)"
  by (induction xs arbitrary: w) (simp_all add: page_ok_exec)

section \<open>One state and one frame loop per target\<close>

lemma filter_le1:
  "distinct (map fst xs) \<Longrightarrow>
   (\<And>p q. p \<in> set xs \<Longrightarrow> q \<in> set xs \<Longrightarrow> Q p \<Longrightarrow> Q q \<Longrightarrow> fst p = fst q) \<Longrightarrow>
   length (filter Q xs) \<le> 1"
proof (induction xs)
  case Nil
  then show ?case by simp
next
  case (Cons x xs)
  show ?case
  proof (cases "Q x")
    case True
    have "\<not> Q q" if "q \<in> set xs" for q
    proof
      assume "Q q"
      then have "fst x = fst q" using Cons.prems(2)[of x q] True that by simp
      then show False using Cons.prems(1) that by (auto simp: image_iff)
    qed
    then have "filter Q xs = []" by (simp add: filter_empty_conv)
    then show ?thesis using True by simp
  next
    case False
    then show ?thesis using Cons by simp
  qed
qed

lemma loops_of_le1:
  assumes ok: "page_ok w"
  shows "length (loops_of el w) \<le> 1"
  unfolding loops_of_def
proof (rule filter_le1[OF page_ok_distinct[OF ok]])
  fix p q assume p: "p \<in> set (pending w)" and q: "q \<in> set (pending w)"
    and e: "l_el (snd p) = el" "l_el (snd q) = el"
  have "FX w el = Some (l_st (snd p))" "raf (heap w (l_st (snd p))) = Some (fst p)"
    using page_ok_pendingD(3,4)[OF ok, of "fst p" "snd p"] p e by auto
  moreover have "FX w el = Some (l_st (snd q))" "raf (heap w (l_st (snd q))) = Some (fst q)"
    using page_ok_pendingD(3,4)[OF ok, of "fst q" "snd q"] q e by auto
  ultimately show "fst p = fst q" by simp
qed

lemma loops_of_registered:
  assumes ok: "page_ok w" and p: "p \<in> set (loops_of el w)"
  shows "FX w el = Some (l_st (snd p))" "\<not> stop (heap w (l_st (snd p)))"
proof -
  have m: "(fst p, snd p) \<in> set (pending w)" and e: "l_el (snd p) = el"
    using p by (auto simp: loops_of_def)
  show r: "FX w el = Some (l_st (snd p))" using page_ok_pendingD(3)[OF ok m] e by simp
  show "\<not> stop (heap w (l_st (snd p)))" using page_ok_FXD(2)[OF ok r] .
qed

lemma loops_of_cancel:
  assumes ok: "page_ok w"
  shows "loops_of el (cancel el w) = []"
proof -
  have "\<not> l_el (snd p) = el" if "p \<in> set (pending (cancel el w))" for p
    using page_ok_pendingD(3)[OF page_ok_cancel[OF ok], of "fst p" "snd p" el] that FX_cancel[of el w]
    by auto
  then show ?thesis by (simp add: loops_of_def filter_empty_conv)
qed

lemma stop_cancel: "FX w el = Some a \<Longrightarrow> stop (heap (cancel el w) a)"
  by (simp add: cancel_def setState_def cancelAnimationFrame_def Let_def split: option.splits)

lemma cancel_idem: "cancel el (cancel el w) = cancel el w"
  by (simp add: cancel_absent FX_cancel)

lemma tweenElement_after_cancel:
  "tweenElement pf el tw ms easing onDone w = tweenElement pf el tw ms easing onDone (cancel el w)"
  by (simp add: tweenElement_def cancel_idem)

lemma cancel_nextAddr [simp]: "nextAddr (cancel el w) = nextAddr w"
  by (simp add: cancel_def setState_def cancelAnimationFrame_def Let_def split: option.splits)

lemma cancel_trace [simp]: "trace (cancel el w) = trace w"
  by (simp add: cancel_def setState_def cancelAnimationFrame_def Let_def split: option.splits)

lemma FX_tweenElement: "FX (tweenElement pf el tw ms easing onDone w) el = Some (nextAddr w)"
  by (simp add: tweenElement_def Let_def setState_def requestAnimationFrame_def)

lemma loops_of_tweenElement:
  assumes ok: "page_ok w"
  shows "length (loops_of el (tweenElement pf el tw ms easing onDone w)) = 1"
proof -
  let ?w = "tweenElement pf el tw ms easing onDone w"
  have ok': "page_ok ?w" by (rule page_ok_tweenElement[OF ok])
  from page_ok_FXD(3)[OF ok' FX_tweenElement] obtain h lp where
    "(h, lp) \<in> set (pending ?w)" "l_el lp = el" by blast
  then have "(h, lp) \<in> set (loops_of el ?w)" by (simp add: loops_of_def)
  then have "loops_of el ?w \<noteq> []" by auto
  then have "0 < length (loops_of el ?w)" by simp
  with loops_of_le1[OF ok', of el] show ?thesis by linarith
qed

text \<open>
  C4. On every page that a sequence of method calls, frames and environment changes can
  produce, each target has at most one scheduled frame loop, and that loop belongs to
  the state registered for the target, which is not stopped. Beginning an animation
  cancels first: after \<open>cancel\<close> the target has no registry entry and no scheduled loop
  and the old state is stopped; \<open>tweenElement\<close> gives the same page as on the page
  where the old state was already cancelled; it registers a state object that did not
  exist before and leaves exactly one scheduled loop for the target.
\<close>

theorem C4_one_state_per_target:
  assumes w: "w = run pf xs (init sty cs t0)"
  shows "length (loops_of el w) \<le> 1
    \<and> (\<forall>p \<in> set (loops_of el w). FX w el = Some (l_st (snd p)) \<and> \<not> stop (heap w (l_st (snd p))))
    \<and> FX (cancel el w) el = None
    \<and> loops_of el (cancel el w) = []
    \<and> (\<forall>a. FX w el = Some a \<longrightarrow> stop (heap (cancel el w) a))
    \<and> tweenElement pf' el tw ms easing onDone w
        = tweenElement pf' el tw ms easing onDone (cancel el w)
    \<and> FX (tweenElement pf' el tw ms easing onDone w) el = Some (nextAddr w)
    \<and> (\<forall>a. FX w el = Some a \<longrightarrow> a < nextAddr w)
    \<and> length (loops_of el (tweenElement pf' el tw ms easing onDone w)) = 1"
proof -
  have ok: "page_ok w" unfolding w by (rule page_ok_run[OF page_ok_init])
  have c2: "\<forall>p \<in> set (loops_of el w). FX w el = Some (l_st (snd p)) \<and> \<not> stop (heap w (l_st (snd p)))"
    using loops_of_registered[OF ok] by blast
  have c5: "\<forall>a. FX w el = Some a \<longrightarrow> stop (heap (cancel el w) a)"
    using stop_cancel by blast
  have c8: "\<forall>a. FX w el = Some a \<longrightarrow> a < nextAddr w"
    using page_ok_FXD(1)[OF ok] by blast
  show ?thesis
    using loops_of_le1[OF ok, of el] c2 FX_cancel[of el w] loops_of_cancel[OF ok, of el] c5
      tweenElement_after_cancel[of pf' el tw ms easing onDone w]
      FX_tweenElement[of pf' el tw ms easing onDone w] c8
      loops_of_tweenElement[OF ok, of el pf' tw ms easing onDone]
    by simp
qed

lemmas eval_defs = page0_def init_def fxTo_def fxMove_def fxScale_def fxRotate_def fxStop_def
  fxFade_def first_def tweenElement_def cancel_def cancelAnimationFrame_def
  requestAnimationFrame_def setState_def Let_def orDefault_def runFrame_def step_def now_def
  progress_def ease_linear_def interp_def num_at_def write_def isTransformKey_def chan_def
  setStyle_def logEvent_def readStyle_def fadeTarget_def orElse_def pf0_def numOrZero_def
  startsWith_def loops_of_def blank_def

lemma page0_init:
  "run pf0 xs page0 = run pf0 xs (init (\<lambda>el p. Str '''')
     (\<lambda>el p. if p = ''opacity'' then ''0.25'' else if p = ''margin-top'' then ''12px''
              else if p = ''width'' then ''auto'' else '''') 0)"
  by (simp add: page0_def)

theorem C4_one_state_per_target_witness:
  "map fst (loops_of 0 (run pf0 ops4 page0)) = [2]
   \<and> map fst (loops_of 1 (run pf0 ops4 page0)) = [3]
   \<and> FX (run pf0 ops4 page0) 0 = Some 0
   \<and> FX (run pf0 ops4 page0) 1 = Some 1
   \<and> loops_of 0 (cancel 0 (run pf0 ops4 page0)) = []
   \<and> stop (heap (cancel 0 (run pf0 ops4 page0)) 0)
   \<and> FX (tweenElement pf0 0 [(''scale'', 2)] 300 ease_linear None (run pf0 ops4 page0)) 0 = Some 2
   \<and> map fst (loops_of 0 (tweenElement pf0 0 [(''scale'', 2)] 300 ease_linear None
        (run pf0 ops4 page0))) = [4]"
proof -
  have f: "FX (run pf0 ops4 page0) 0 = Some 0" "FX (run pf0 ops4 page0) 1 = Some 1"
    by (simp_all add: ops4_def eval_defs)
  have l: "map fst (loops_of 0 (run pf0 ops4 page0)) = [2]"
    "map fst (loops_of 1 (run pf0 ops4 page0)) = [3]"
    by (simp_all add: ops4_def eval_defs)
  have n: "nextAddr (run pf0 ops4 page0) = 2"
    by (simp add: ops4_def eval_defs)
  have t: "map fst (loops_of 0 (tweenElement pf0 0 [(''scale'', 2)] 300 ease_linear None
        (run pf0 ops4 page0))) = [4]"
    by (simp add: ops4_def eval_defs)
  show ?thesis
    using C4_one_state_per_target [OF page0_init, of 0 ops4 pf0 "[(''scale'', 2)]" 300 ease_linear None]
      f l n t by (simp add: FX_tweenElement)
qed


section \<open>A cancelled loop stays silent\<close>

lemma silent_refl: "a < nextAddr w \<Longrightarrow> stop (heap w a) \<Longrightarrow> silent a w w"
  by (simp add: silent_def)

lemma silent_trans: "silent a w w1 \<Longrightarrow> silent a w1 w2 \<Longrightarrow> silent a w w2"
  by (auto simp: silent_def)

lemma silent_same:
  "a < nextAddr w \<Longrightarrow> stop (heap w a) \<Longrightarrow> nextAddr w' = nextAddr w \<Longrightarrow> heap w' = heap w \<Longrightarrow>
   trace w' = trace w \<Longrightarrow> silent a w w'"
  by (simp add: silent_def)

lemma cancel_heap_stop: "stop (heap w a) \<Longrightarrow> stop (heap (cancel el w) a)"
  by (simp add: cancel_def setState_def cancelAnimationFrame_def Let_def split: option.splits)

lemma silent_cancel:
  assumes "a < nextAddr w" "stop (heap w a)"
  shows "silent a w (cancel el w)"
  using assms by (simp add: silent_def cancel_heap_stop)

lemma tweenElement_trace [simp]: "trace (tweenElement pf el tw ms easing onDone w) = trace w"
  by (simp add: tweenElement_def Let_def setState_def requestAnimationFrame_def)

lemma tweenElement_nextAddr [simp]:
  "nextAddr (tweenElement pf el tw ms easing onDone w) = Suc (nextAddr w)"
  by (simp add: tweenElement_def Let_def setState_def requestAnimationFrame_def)

lemma tweenElement_heap_old:
  "a < nextAddr w \<Longrightarrow> heap (tweenElement pf el tw ms easing onDone w) a = heap (cancel el w) a"
  by (simp add: tweenElement_def Let_def setState_def requestAnimationFrame_def)

lemma silent_tweenElement:
  assumes "a < nextAddr w" "stop (heap w a)"
  shows "silent a w (tweenElement pf el tw ms easing onDone w)"
  using assms by (simp add: silent_def tweenElement_heap_old cancel_heap_stop)

lemma setStyle_fields [simp]:
  "FX (setStyle el p v w) = FX w" "heap (setStyle el p v w) = heap w"
  "pending (setStyle el p v w) = pending w" "rafCounter (setStyle el p v w) = rafCounter w"
  "nextAddr (setStyle el p v w) = nextAddr w" "clock (setStyle el p v w) = clock w"
  "computed (setStyle el p v w) = computed w" "trace (setStyle el p v w) = trace w"
  by (simp_all add: setStyle_def)

lemma silent_step:
  assumes a: "a < nextAddr w" "stop (heap w a)"
  shows "silent a w (step lp w)"
proof (cases "stop (heap w (l_st lp))")
  case True
  then show ?thesis using a by (simp add: step_def silent_def)
next
  case False
  then have ne: "l_st lp \<noteq> a" using a(2) by auto
  define t where "t = progress (clock w) (l_start lp) (l_ms lp)"
  define w1 where "w1 = frameWrites lp (l_easing lp t) (map fst (l_dst lp)) w"
  have tr1: "trace w1 = trace w @ map (\<lambda>k. Wrote (l_st lp) (l_el lp) k (interp lp (l_easing lp t) k))
      (map fst (l_dst lp))"
    by (simp add: w1_def frameWrites_trace)
  have f1: "heap w1 = heap w" "nextAddr w1 = nextAddr w" by (simp_all add: w1_def)
  show ?thesis
  proof (cases "t < 1")
    case True
    have "step lp w = setState (l_st lp)
        ((heap w (l_st lp))\<lparr>raf := Some (Suc (rafCounter w))\<rparr>)
        (w1\<lparr>pending := pending w1 @ [(Suc (rafCounter w), lp)], rafCounter := Suc (rafCounter w)\<rparr>)"
      using False True unfolding t_def w1_def
      by (simp add: step_def now_def Let_def requestAnimationFrame_def)
    then show ?thesis using a ne tr1 f1 by (auto simp: silent_def setState_def)
  next
    case nt: False
    have "step lp w = (case l_onDone lp of None \<Rightarrow> w1\<lparr>FX := (FX w1)(l_el lp := None)\<rparr>
        | Some cb \<Rightarrow> run_done cb (logEvent (Called (l_st lp)) (w1\<lparr>FX := (FX w1)(l_el lp := None)\<rparr>)))"
      using False nt unfolding t_def w1_def
      by (simp add: step_def now_def Let_def split: option.splits)
    then show ?thesis using a ne tr1 f1
      by (auto simp: silent_def logEvent_def split: option.splits)
  qed
qed

lemma silent_runFrame:
  assumes a: "a < nextAddr w" "stop (heap w a)"
  shows "silent a w (runFrame h w)"
proof (cases "map_of (pending w) h")
  case None
  then show ?thesis using a by (simp add: runFrame_def silent_refl)
next
  case (Some lp)
  let ?w = "w\<lparr>pending := filter (\<lambda>p. fst p \<noteq> h) (pending w)\<rparr>"
  have "silent a ?w (step lp ?w)" using a by (intro silent_step) simp_all
  then show ?thesis using Some by (simp add: runFrame_def silent_def)
qed

lemma silent_exec:
  assumes a: "a < nextAddr w" "stop (heap w a)"
  shows "silent a w (exec pf x w)"
proof (cases x)
  case (Fade d ms shw easing)
  show ?thesis
  proof (cases "first d")
    case None
    then show ?thesis using a by (simp add: Fade fxFade_def silent_refl)
  next
    case (Some el)
    define w2 where "w2 = (let w1 = setStyle el ''willChange'' (Str ''opacity'') w
        in if fadeTarget pf w el shw \<and> style w1 el ''display'' = Str ''none''
           then setStyle el ''display'' (Str '''') w1 else w1)"
    have s1: "silent a w w2" using a by (intro silent_same) (simp_all add: w2_def Let_def)
    then have "a < nextAddr w2" "stop (heap w2 a)" by (simp_all add: silent_def)
    then have s2: "silent a w2 (tweenElement pf el [(''opacity'', if fadeTarget pf w el shw then 1 else 0)]
                (orDefault 300 ms) (orDefault ease_inout easing) (Some (FadeDone el (fadeTarget pf w el shw))) w2)"
      by (rule silent_tweenElement)
    have eq: "exec pf x w = tweenElement pf el [(''opacity'', if fadeTarget pf w el shw then 1 else 0)]
                (orDefault 300 ms) (orDefault ease_inout easing) (Some (FadeDone el (fadeTarget pf w el shw))) w2"
      using Some unfolding Fade w2_def by (simp add: fxFade_def Let_def)
    show ?thesis unfolding eq by (rule silent_trans[OF s1 s2])
  qed
next
  case (To d tw ms easing)
  then show ?thesis using a
    by (simp add: fxTo_def silent_tweenElement silent_refl split: option.splits)
next
  case (Move d x y ms easing)
  then show ?thesis using a
    by (simp add: fxMove_def silent_tweenElement silent_refl split: option.splits)
next
  case (Scale d s ms easing)
  then show ?thesis using a
    by (simp add: fxScale_def silent_tweenElement silent_refl split: option.splits)
next
  case (Rotate d deg ms easing)
  then show ?thesis using a
    by (simp add: fxRotate_def silent_tweenElement silent_refl split: option.splits)
next
  case (Stop d)
  then show ?thesis using a
    by (simp add: fxStop_def silent_cancel silent_refl split: option.splits)
next
  case (Frame h)
  then show ?thesis using a by (simp add: silent_runFrame)
next
  case (Advance dt)
  then show ?thesis using a by (simp add: silent_def)
next
  case (Cascade cs)
  then show ?thesis using a by (simp add: silent_def)
next
  case (Inline el p v)
  then show ?thesis using a by (simp add: silent_def)
qed

lemma silent_run:
  "a < nextAddr w \<Longrightarrow> stop (heap w a) \<Longrightarrow> silent a w (run pf xs w)"
proof (induction xs arbitrary: w)
  case Nil
  then show ?case by (simp add: silent_refl)
next
  case (Cons x xs)
  have s1: "silent a w (exec pf x w)" using Cons.prems by (rule silent_exec)
  then have "silent a (exec pf x w) (run pf xs (exec pf x w))"
    by (intro Cons.IH) (simp_all add: silent_def)
  with s1 show ?case by (simp add: silent_trans)
qed

lemma tweenElement_stops_old:
  assumes reg: "FX w el = Some a" and al: "a < nextAddr w"
  shows "stop (heap (tweenElement pf el tw ms easing onDone w) a)"
  using al stop_cancel[OF reg] by (simp add: tweenElement_heap_old)

lemma target_exec:
  assumes reg: "FX w el = Some a" and al: "a < nextAddr w" and x: "target_of x = Some el"
  shows "trace (exec pf x w) = trace w \<and> stop (heap (exec pf x w) a) \<and> a < nextAddr (exec pf x w)"
proof (cases x)
  case (Fade d ms shw easing)
  define w2 where "w2 = (let w1 = setStyle el ''willChange'' (Str ''opacity'') w
        in if fadeTarget pf w el shw \<and> style w1 el ''display'' = Str ''none''
           then setStyle el ''display'' (Str '''') w1 else w1)"
  have f: "FX w2 el = Some a" "nextAddr w2 = nextAddr w" "trace w2 = trace w"
    using reg by (simp_all add: w2_def Let_def)
  have eq: "exec pf x w = tweenElement pf el [(''opacity'', if fadeTarget pf w el shw then 1 else 0)]
                (orDefault 300 ms) (orDefault ease_inout easing) (Some (FadeDone el (fadeTarget pf w el shw))) w2"
    using x unfolding Fade w2_def by (simp add: fxFade_def Let_def)
  show ?thesis unfolding eq using tweenElement_stops_old[OF f(1)] al f(2,3) by simp
next
  case (To d tw ms easing)
  then show ?thesis using x al tweenElement_stops_old[OF reg al] by (simp add: fxTo_def)
next
  case (Move d x y ms easing)
  then show ?thesis using x al tweenElement_stops_old[OF reg al] by (simp add: fxMove_def)
next
  case (Scale d s ms easing)
  then show ?thesis using x al tweenElement_stops_old[OF reg al] by (simp add: fxScale_def)
next
  case (Rotate d deg ms easing)
  then show ?thesis using x al tweenElement_stops_old[OF reg al] by (simp add: fxRotate_def)
next
  case (Stop d)
  then show ?thesis using x al stop_cancel[OF reg] by (simp add: fxStop_def)
qed (use x in simp_all)

lemma page_ok_reachable: "page_ok (run pf xs (init sty cs t0))"
  by (rule page_ok_run[OF page_ok_init])

text \<open>
  C3. Let a target have an in-flight animation with state \<open>a\<close> on a reachable page, and
  let any method be called on that target (a new animation or \<open>stop\<close>). The call itself
  logs nothing, and whatever happens afterwards, the log only grows by events of other
  loops: no write and no completion callback of the loop of \<open>a\<close> occurs. That loop is
  never scheduled again and its state stays stopped.
\<close>

theorem C3_superseded_loop_silent:
  assumes w: "w = run pf xs0 (init sty cs t0)"
    and reg: "FX w el = Some a"
    and x: "target_of x = Some el"
  shows "trace (exec pf x w) = trace w
    \<and> take (length (trace w)) (trace (run pf xs (exec pf x w))) = trace w
    \<and> (\<forall>e \<in> set (drop (length (trace w)) (trace (run pf xs (exec pf x w)))). ev_loop e \<noteq> a)
    \<and> (\<forall>p \<in> set (pending (run pf xs (exec pf x w))). l_st (snd p) \<noteq> a)
    \<and> stop (heap (run pf xs (exec pf x w)) a)"
proof -
  have ok: "page_ok w" unfolding w by (rule page_ok_reachable)
  have al: "a < nextAddr w" by (rule page_ok_FXD(1)[OF ok reg])
  let ?w1 = "exec pf x w" and ?w2 = "run pf xs (exec pf x w)"
  from target_exec[OF reg al x, of pf] have
    t1: "trace ?w1 = trace w" and s1: "stop (heap ?w1 a)" and a1: "a < nextAddr ?w1" by simp_all
  from silent_run[OF a1 s1, of pf xs] obtain evs where
    tr: "trace ?w2 = trace w @ evs" and ev: "\<forall>e \<in> set evs. ev_loop e \<noteq> a"
    and s2: "stop (heap ?w2 a)"
    unfolding silent_def t1 by blast
  have ok2: "page_ok ?w2" by (intro page_ok_run page_ok_exec ok)
  have np: "\<forall>p \<in> set (pending ?w2). l_st (snd p) \<noteq> a"
  proof
    fix p assume p: "p \<in> set (pending ?w2)"
    then have m: "(fst p, snd p) \<in> set (pending ?w2)" by simp
    have "\<not> stop (heap ?w2 (l_st (snd p)))"
      using page_ok_FXD(2)[OF ok2 page_ok_pendingD(3)[OF ok2 m]] .
    then show "l_st (snd p) \<noteq> a" using s2 by auto
  qed
  show ?thesis using t1 tr ev np s2 by simp
qed

theorem C3_superseded_loop_silent_witness:
  "FX (run pf0 before3 page0) 0 = Some 0
   \<and> trace (run pf0 before3 page0) = [Wrote 0 0 ''x'' (10 / 3), Wrote 0 0 ''y'' 0]
   \<and> map fst (pending (run pf0 before3 page0)) = [2]
   \<and> trace (run pf0 after3 (exec pf0 (Scale [0] (Some 2) (Some 300) (Some ease_linear))
        (run pf0 before3 page0)))
      = [Wrote 0 0 ''x'' (10 / 3), Wrote 0 0 ''y'' 0, Wrote 1 0 ''scale'' (3 / 2)]
   \<and> map ev_loop (drop 2 (trace (run pf0 after3
          (exec pf0 (Scale [0] (Some 2) (Some 300) (Some ease_linear)) (run pf0 before3 page0)))))
       = [1]"
proof -
  have f: "FX (run pf0 before3 page0) 0 = Some 0"
    by (simp add: before3_def eval_defs)
  have t: "target_of (Scale [0] (Some 2) (Some 300) (Some ease_linear)) = Some 0"
    by (simp add: first_def)
  have tr: "trace (run pf0 before3 page0) = [Wrote 0 0 ''x'' (10 / 3), Wrote 0 0 ''y'' 0]"
    by (simp add: before3_def eval_defs)
  have tr2: "trace (run pf0 after3 (exec pf0 (Scale [0] (Some 2) (Some 300) (Some ease_linear))
        (run pf0 before3 page0)))
      = [Wrote 0 0 ''x'' (10 / 3), Wrote 0 0 ''y'' 0, Wrote 1 0 ''scale'' (3 / 2)]"
    by (simp add: before3_def after3_def eval_defs)
  have p: "map fst (pending (run pf0 before3 page0)) = [2]"
    by (simp add: before3_def eval_defs)
  show ?thesis
    using C3_superseded_loop_silent [OF page0_init f t, of after3] f tr tr2 p by simp
qed

section \<open>Registry entries do not outlive their animation\<close>

text \<open>
  C7. On every reachable page: cancelling or stopping a target removes its registry
  entry; running a scheduled frame callback whose normalised progress has reached 1
  removes the entry of its target; a superseding animation replaces the entry by a new
  state and stops the old one; and every entry that is present belongs to a target
  whose frame loop is scheduled, so no entry outlives its animation.
\<close>

theorem C7_registry_entry_removed:
  assumes w: "w = run pf xs (init sty cs t0)"
  shows "FX (cancel el w) el = None
    \<and> FX (fxStop (el # d) w) el = None
    \<and> (\<forall>h lp. (h, lp) \<in> set (pending w) \<and> 1 \<le> progress (clock w) (l_start lp) (l_ms lp)
          \<longrightarrow> FX (runFrame h w) (l_el lp) = None)
    \<and> (\<forall>a. FX w el = Some a \<longrightarrow>
          FX (tweenElement pf' el tw ms easing onDone w) el \<noteq> Some a
          \<and> stop (heap (tweenElement pf' el tw ms easing onDone w) a))
    \<and> (\<forall>a. FX w el = Some a \<longrightarrow>
          (\<exists>h lp. (h, lp) \<in> set (pending w) \<and> l_el lp = el \<and> l_st lp = a))"
proof -
  have ok: "page_ok w" unfolding w by (rule page_ok_reachable)
  have c2: "FX (fxStop (el # d) w) el = None" by (simp add: fxStop_def first_def FX_cancel)
  have c3: "FX (runFrame h w) (l_el lp) = None"
    if m: "(h, lp) \<in> set (pending w)" and t: "1 \<le> progress (clock w) (l_start lp) (l_ms lp)"
    for h lp
  proof -
    have mo: "map_of (pending w) h = Some lp"
      using page_ok_distinct[OF ok] m by (rule map_of_is_SomeI)
    have ns: "\<not> stop (heap w (l_st lp))"
      using page_ok_FXD(2)[OF ok page_ok_pendingD(3)[OF ok m]] .
    show ?thesis using mo ns t
      by (simp add: runFrame_def step_def now_def Let_def logEvent_def split: option.splits)
  qed
  have c4: "FX (tweenElement pf' el tw ms easing onDone w) el \<noteq> Some a
          \<and> stop (heap (tweenElement pf' el tw ms easing onDone w) a)" if r: "FX w el = Some a" for a
    using page_ok_FXD(1)[OF ok r] tweenElement_stops_old[OF r] by (simp add: FX_tweenElement)
  have c5: "\<exists>h lp. (h, lp) \<in> set (pending w) \<and> l_el lp = el \<and> l_st lp = a" if r: "FX w el = Some a" for a
    using page_ok_FXD(3)[OF ok r] .
  show ?thesis using FX_cancel[of el w] c2 c3 c4 c5 by blast
qed

theorem C7_registry_entry_removed_witness:
  "FX (run pf0 ops7 page0) 0 = Some 0
   \<and> map fst (pending (run pf0 ops7 page0)) = [1]
   \<and> FX (runFrame 1 (run pf0 ops7 page0)) 0 = None
   \<and> FX (cancel 0 (run pf0 ops7 page0)) 0 = None
   \<and> FX (tweenElement pf0 0 [(''scale'', 2)] 300 ease_linear None (run pf0 ops7 page0)) 0 = Some 1"
proof -
  have f: "FX (run pf0 ops7 page0) 0 = Some 0"
    by (simp add: ops7_def eval_defs)
  have p: "map fst (pending (run pf0 ops7 page0)) = [1]"
    by (simp add: ops7_def eval_defs)
  have m: "\<exists>lp. (1, lp) \<in> set (pending (run pf0 ops7 page0)) \<and> l_el lp = 0
       \<and> 1 \<le> progress (clock (run pf0 ops7 page0)) (l_start lp) (l_ms lp)"
    by (simp add: ops7_def eval_defs)
  have n: "FX (tweenElement pf0 0 [(''scale'', 2)] 300 ease_linear None (run pf0 ops7 page0)) 0 = Some 1"
    by (simp add: ops7_def eval_defs)
  show ?thesis
    using C7_registry_entry_removed [OF page0_init, of 0 ops7 "[]" pf0 "[(''scale'', 2)]" 300 ease_linear None]
      f p m n by (metis (no_types, lifting))
qed

section \<open>The composed transform\<close>

lemma write_transform:
  "isTransformKey k \<Longrightarrow> FX w el = Some a \<Longrightarrow>
   style (write el k v w) el ''transform'' = composed (heap w a) k v"
  by (auto simp: write_def composed_def setStyle_def Let_def isTransformKey_def)

lemma write_other:
  "\<not> isTransformKey k \<Longrightarrow> ''transform'' \<noteq> k \<Longrightarrow>
   style (write el k v w) el ''transform'' = style w el ''transform''"
  by (auto simp: write_def setStyle_def)

lemma component_composed:
  "isTransformKey c \<Longrightarrow>
   component c (composed st k v) =
     Some (if c = k then v else chan (st_to st) (st_from st) c (identity_of c))"
  by (auto simp: composed_def isTransformKey_def identity_of_def)

lemma frameWrites_transform:
  assumes "FX w (l_el lp) = Some a" "''transform'' \<notin> set ks"
  shows "style (frameWrites lp e ks w) (l_el lp) ''transform'' =
     (if filter isTransformKey ks = [] then style w (l_el lp) ''transform''
      else composed (heap w a) (last (filter isTransformKey ks))
             (interp lp e (last (filter isTransformKey ks))))"
  using assms
proof (induction ks arbitrary: w)
  case Nil
  then show ?case by simp
next
  case (Cons k ks)
  let ?w = "logEvent (Wrote (l_st lp) (l_el lp) k (interp lp e k)) (write (l_el lp) k (interp lp e k) w)"
  have fx: "FX ?w (l_el lp) = Some a" and hp: "heap ?w = heap w"
    using Cons.prems by (simp_all add: logEvent_def)
  have st: "style ?w (l_el lp) ''transform'' =
      (if isTransformKey k then composed (heap w a) k (interp lp e k) else style w (l_el lp) ''transform'')"
    using Cons.prems by (simp add: logEvent_def write_transform write_other)
  have nt: "''transform'' \<notin> set ks" using Cons.prems by simp
  show ?case using Cons.IH[OF fx nt] st hp by simp
qed

lemma chan_dst: "map_of f c = Some b \<Longrightarrow> chan f fr c d = b"
  by (simp add: chan_def)

lemma chan_absent: "map_of f c = None \<Longrightarrow> map_of fr c = None \<Longrightarrow> chan f fr c d = d"
  by (simp add: chan_def)

lemma num_at_key: "k \<in> set (map fst m) \<Longrightarrow> map_of m k = Some (num_at m k)"
  by (cases "map_of m k") (auto simp: num_at_def map_of_eq_None_iff)

text \<open>The inline transform after a scheduled frame callback has run.\<close>

lemma runFrame_transform:
  assumes ok: "page_ok w" and m: "(h, lp) \<in> set (pending w)"
    and nt: "''transform'' \<notin> set (map fst (l_dst lp))"
    and tk: "filter isTransformKey (map fst (l_dst lp)) \<noteq> []"
  shows "style (runFrame h w) (l_el lp) ''transform'' =
     composed (heap w (l_st lp)) (last (filter isTransformKey (map fst (l_dst lp))))
       (interp lp (l_easing lp (progress (clock w) (l_start lp) (l_ms lp)))
          (last (filter isTransformKey (map fst (l_dst lp)))))"
proof -
  let ?w = "w\<lparr>pending := filter (\<lambda>p. fst p \<noteq> h) (pending w)\<rparr>"
  let ?e = "l_easing lp (progress (clock w) (l_start lp) (l_ms lp))"
  have mo: "map_of (pending w) h = Some lp"
    using page_ok_distinct[OF ok] m by (rule map_of_is_SomeI)
  have reg: "FX ?w (l_el lp) = Some (l_st lp)" using page_ok_pendingD(3)[OF ok m] by simp
  have ns: "\<not> stop (heap w (l_st lp))"
    using page_ok_FXD(2)[OF ok page_ok_pendingD(3)[OF ok m]] .
  have fw: "style (frameWrites lp ?e (map fst (l_dst lp)) ?w) (l_el lp) ''transform'' =
      composed (heap w (l_st lp)) (last (filter isTransformKey (map fst (l_dst lp))))
       (interp lp ?e (last (filter isTransformKey (map fst (l_dst lp)))))"
    using frameWrites_transform[OF reg nt, of ?e] tk by simp
  have "style (runFrame h w) (l_el lp) ''transform'' =
      style (frameWrites lp ?e (map fst (l_dst lp)) ?w) (l_el lp) ''transform''"
    using mo ns
    by (cases "l_onDone lp"; cases "the (l_onDone lp)")
       (simp_all add: runFrame_def step_def now_def Let_def requestAnimationFrame_def setState_def
        logEvent_def setStyle_def)
  with fw show ?thesis by simp
qed

text \<open>
  C10. Let a frame loop that animates transform channels be scheduled on a reachable
  page, and let \<open>k\<close> be one of its transform channels. Every write of \<open>k\<close> fills each
  other co-animated transform component with its destination value. After the frame
  callback has run, \<open>k\<close> shows its destination value unless it is the last transform
  channel in key order, and that last channel shows the value interpolated in this
  frame. (The raw style property \<open>transform\<close> is assumed not to be a channel itself.)
\<close>

theorem C10_coanimated_channels_show_destination:
  assumes w: "w = run pf xs (init sty cs t0)"
    and m: "(h, lp) \<in> set (pending w)"
    and nt: "''transform'' \<notin> set (map fst (l_dst lp))"
    and k: "k \<in> set (filter isTransformKey (map fst (l_dst lp)))"
  shows "(\<forall>c v. isTransformKey c \<and> c \<in> set (map fst (l_dst lp)) \<and> c \<noteq> k \<longrightarrow>
            component c (style (write (l_el lp) k v w) (l_el lp) ''transform'')
              = Some (num_at (l_dst lp) c))
    \<and> (k \<noteq> last (filter isTransformKey (map fst (l_dst lp))) \<longrightarrow>
          component k (style (runFrame h w) (l_el lp) ''transform'') = Some (num_at (l_dst lp) k))
    \<and> component (last (filter isTransformKey (map fst (l_dst lp))))
          (style (runFrame h w) (l_el lp) ''transform'')
        = Some (interp lp (l_easing lp (progress (clock w) (l_start lp) (l_ms lp)))
                  (last (filter isTransformKey (map fst (l_dst lp)))))"
proof -
  have ok: "page_ok w" unfolding w by (rule page_ok_reachable)
  let ?tks = "filter isTransformKey (map fst (l_dst lp))"
  have reg: "FX w (l_el lp) = Some (l_st lp)" and sto: "st_to (heap w (l_st lp)) = l_dst lp"
    using page_ok_pendingD(3,6)[OF ok m] by simp_all
  have kt: "isTransformKey k" using k by simp
  have ne: "?tks \<noteq> []" using k by (metis empty_iff list.set(1))
  have kin: "k \<in> set (map fst (l_dst lp))" using k by simp
  have lt: "isTransformKey (last ?tks)"
    using last_in_set[OF ne] by simp
  have fill: "chan (st_to (heap w (l_st lp))) (st_from (heap w (l_st lp))) c (identity_of c)
      = num_at (l_dst lp) c" if "c \<in> set (map fst (l_dst lp))" for c
    using num_at_key[OF that] by (simp add: sto chan_dst)
  have a: "component c (style (write (l_el lp) k v w) (l_el lp) ''transform'')
              = Some (num_at (l_dst lp) c)"
    if "isTransformKey c" "c \<in> set (map fst (l_dst lp))" "c \<noteq> k" for c v
    using that fill by (simp add: write_transform[OF kt reg] component_composed)
  have rf: "style (runFrame h w) (l_el lp) ''transform'' =
     composed (heap w (l_st lp)) (last ?tks)
       (interp lp (l_easing lp (progress (clock w) (l_start lp) (l_ms lp))) (last ?tks))"
    by (rule runFrame_transform[OF ok m nt ne])
  have b: "component k (style (runFrame h w) (l_el lp) ''transform'') = Some (num_at (l_dst lp) k)"
    if "k \<noteq> last ?tks"
    using that fill[OF kin] by (simp add: rf component_composed[OF kt])
  have c: "component (last ?tks) (style (runFrame h w) (l_el lp) ''transform'')
        = Some (interp lp (l_easing lp (progress (clock w) (l_start lp) (l_ms lp))) (last ?tks))"
    by (simp add: rf component_composed[OF lt])
  show ?thesis using a b c by blast
qed

lemma pending_ops10: "pending (run pf0 ops10 page0) = [(1, loop10)]"
  by (simp add: ops10_def loop10_def eval_defs)

theorem C10_coanimated_channels_show_destination_witness:
  "component ''x'' (style (runFrame 1 (run pf0 ops10 page0)) 0 ''transform'') = Some 10
   \<and> component ''y'' (style (runFrame 1 (run pf0 ops10 page0)) 0 ''transform'') = Some 8
   \<and> interp loop10 (1 / 3) ''x'' = 10 / 3
   \<and> trace (runFrame 1 (run pf0 ops10 page0)) = [Wrote 0 0 ''x'' (10 / 3), Wrote 0 0 ''y'' 8]"
proof -
  have m: "(1, loop10) \<in> set (pending (run pf0 ops10 page0))"
    by (simp add: pending_ops10)
  have nt: "''transform'' \<notin> set (map fst (l_dst loop10))"
    by (simp add: loop10_def)
  have k: "''x'' \<in> set (filter isTransformKey (map fst (l_dst loop10)))"
    by (simp add: loop10_def isTransformKey_def)
  have cl: "clock (run pf0 ops10 page0) = 100"
    by (simp add: ops10_def eval_defs)
  have tr: "trace (runFrame 1 (run pf0 ops10 page0)) = [Wrote 0 0 ''x'' (10 / 3), Wrote 0 0 ''y'' 8]"
    by (simp add: ops10_def eval_defs)
  have l: "last (filter isTransformKey (map fst (l_dst loop10))) = ''y''"
    by (simp add: loop10_def isTransformKey_def)
  show ?thesis
    using C10_coanimated_channels_show_destination [OF page0_init m nt k] tr
    by (simp add: l cl) (simp add: loop10_def interp_def num_at_def progress_def ease_linear_def)
qed

text \<open>
  C1 (amended). On every reachable page, after a frame callback of an animation with
  some transform channel has run, every transform component that is not a channel of
  that animation holds its identity value (0 for \<open>x\<close>, \<open>y\<close> and \<open>rotate\<close>, 1 for
  \<open>scale\<close>), whatever an earlier animation left in the transform: a \<open>scale\<close> that
  follows a completed \<open>move\<close> writes \<open>x = 0\<close>.
\<close>

theorem C1_unanimated_components_identity:
  assumes w: "w = run pf xs (init sty cs t0)"
    and m: "(h, lp) \<in> set (pending w)"
    and nt: "''transform'' \<notin> set (map fst (l_dst lp))"
    and tk: "filter isTransformKey (map fst (l_dst lp)) \<noteq> []"
    and c: "isTransformKey c"
    and nc: "c \<notin> set (map fst (l_dst lp))"
  shows "component c (style (runFrame h w) (l_el lp) ''transform'') = Some (identity_of c)"
proof -
  have ok: "page_ok w" unfolding w by (rule page_ok_reachable)
  let ?tks = "filter isTransformKey (map fst (l_dst lp))"
  have sto: "st_to (heap w (l_st lp)) = l_dst lp" and sfr: "st_from (heap w (l_st lp)) = l_from lp"
    and keys: "map fst (l_from lp) = map fst (l_dst lp)"
    using page_ok_pendingD(5,6,7)[OF ok m] by simp_all
  have n1: "map_of (l_dst lp) c = None" using nc by (simp add: map_of_eq_None_iff)
  have n2: "map_of (l_from lp) c = None" using nc keys
    by (metis map_of_eq_None_iff set_map)
  have "c \<noteq> last ?tks" using last_in_set[OF tk] nc by auto
  then show ?thesis
    by (simp add: runFrame_transform[OF ok m nt tk] component_composed[OF c] sto sfr
        chan_absent[OF n1 n2])
qed

lemma pending_scale1: "pending (run pf0 (move1 @ scale1) page0) = [(2, loop1)]"
  by (simp add: move1_def scale1_def loop1_def eval_defs)

theorem C1_unanimated_components_identity_witness:
  "component ''x'' (style (runFrame 2 (run pf0 (move1 @ scale1) page0)) 0 ''transform'') = Some 0
   \<and> component ''scale'' (style (runFrame 2 (run pf0 (move1 @ scale1) page0)) 0 ''transform'')
       = Some (3 / 2)"
proof -
  have m: "(2, loop1) \<in> set (pending (run pf0 (move1 @ scale1) page0))"
    by (simp add: pending_scale1)
  have nt: "''transform'' \<notin> set (map fst (l_dst loop1))"
    by (simp add: loop1_def)
  have tk: "filter isTransformKey (map fst (l_dst loop1)) \<noteq> []"
    by (simp add: loop1_def isTransformKey_def)
  have c: "isTransformKey ''x''" by (simp add: isTransformKey_def)
  have nc: "''x'' \<notin> set (map fst (l_dst loop1))" by (simp add: loop1_def)
  have s: "style (runFrame 2 (run pf0 (move1 @ scale1) page0)) 0 ''transform'' = Transform 0 0 (3 / 2) 0"
    by (simp add: move1_def scale1_def eval_defs)
  show ?thesis
    using C1_unanimated_components_identity [OF page0_init m nt tk c nc] s
    by (simp add: loop1_def identity_of_def)
qed

text \<open>
  C1 as stated fails: \<open>move(10, 0, 300)\<close> completes with \<open>x = 10\<close> and leaves the
  registry; the first frame of the following \<open>scale(2, 300)\<close> writes the transform
  with \<open>x = 0\<close>.
\<close>

theorem C1_translate_lost_counterexample:
  "component ''x'' (style (run pf0 move1 page0) 0 ''transform'') = Some 10
   \<and> FX (run pf0 move1 page0) 0 = None
   \<and> pending (run pf0 move1 page0) = []
   \<and> style (run pf0 (move1 @ scale1 @ [Frame 2]) page0) 0 ''transform'' = Transform 0 0 (3 / 2) 0
   \<and> component ''x'' (style (run pf0 (move1 @ scale1 @ [Frame 2]) page0) 0 ''transform'') \<noteq> Some 10"
  by (simp add: move1_def scale1_def eval_defs)

section \<open>The completing frame\<close>

lemma progress_ge1: "1 \<le> progress nw st d \<Longrightarrow> progress nw st d = 1"
  by (simp add: progress_def min_def split: if_splits)

lemma runFrame_final:
  assumes ok: "page_ok w" and m: "(h, lp) \<in> set (pending w)"
    and t: "1 \<le> progress (clock w) (l_start lp) (l_ms lp)"
  shows "runFrame h w =
     (let u = (frameWrites lp (l_easing lp 1) (map fst (l_dst lp))
                 (w\<lparr>pending := filter (\<lambda>p. fst p \<noteq> h) (pending w)\<rparr>))
                \<lparr>FX := (FX w)((l_el lp) := None)\<rparr>
      in case l_onDone lp of None \<Rightarrow> u | Some cb \<Rightarrow> run_done cb (logEvent (Called (l_st lp)) u))"
proof -
  have mo: "map_of (pending w) h = Some lp"
    using page_ok_distinct[OF ok] m by (rule map_of_is_SomeI)
  have ns: "\<not> stop (heap w (l_st lp))"
    using page_ok_FXD(2)[OF ok page_ok_pendingD(3)[OF ok m]] .
  show ?thesis using mo ns t progress_ge1[OF t]
    by (simp add: runFrame_def step_def now_def Let_def split: option.splits)
qed

text \<open>
  C2 (amended). When a scheduled frame callback runs on a reachable page with
  normalised progress at least 1, it calls \<open>write\<close> exactly once per channel, in key
  order, with the eased value \<open>from[k] + (to[k] - from[k]) * easing(1)\<close>, the same
  interpolation expression that every other frame evaluates; it makes no separate
  write of the destination \<open>to[k]\<close>. It then removes the registry entry of the target
  and, if a completion callback was supplied, invokes it.
\<close>

theorem C2_final_frame_writes_eased_value:
  assumes w: "w = run pf xs (init sty cs t0)"
    and m: "(h, lp) \<in> set (pending w)"
    and t: "1 \<le> progress (clock w) (l_start lp) (l_ms lp)"
  shows "trace (runFrame h w) =
      trace w
      @ map (\<lambda>k. Wrote (l_st lp) (l_el lp) k
               (num_at (l_from lp) k + (num_at (l_dst lp) k - num_at (l_from lp) k) * l_easing lp 1))
          (map fst (l_dst lp))
      @ (case l_onDone lp of None \<Rightarrow> [] | Some cb \<Rightarrow> [Called (l_st lp)])
    \<and> (\<forall>k. num_at (l_from lp) k + (num_at (l_dst lp) k - num_at (l_from lp) k) * l_easing lp 1
            = interp lp (l_easing lp (progress (clock w) (l_start lp) (l_ms lp))) k)
    \<and> FX (runFrame h w) (l_el lp) = None
    \<and> (\<forall>el target. l_onDone lp = Some (FadeDone el target) \<longrightarrow>
          style (runFrame h w) el ''willChange'' = Str '''')"
proof -
  have ok: "page_ok w" unfolding w by (rule page_ok_reachable)
  note rf = runFrame_final[OF ok m t]
  have tr: "trace (runFrame h w) =
      trace w
      @ map (\<lambda>k. Wrote (l_st lp) (l_el lp) k
               (num_at (l_from lp) k + (num_at (l_dst lp) k - num_at (l_from lp) k) * l_easing lp 1))
          (map fst (l_dst lp))
      @ (case l_onDone lp of None \<Rightarrow> [] | Some cb \<Rightarrow> [Called (l_st lp)])"
    unfolding rf by (simp add: Let_def frameWrites_trace logEvent_def interp_def split: option.splits)
  have fx: "FX (runFrame h w) (l_el lp) = None"
    unfolding rf by (simp add: Let_def logEvent_def split: option.splits)
  have cb: "style (runFrame h w) el ''willChange'' = Str ''''"
    if "l_onDone lp = Some (FadeDone el target)" for el target
    unfolding rf using that by (simp add: Let_def setStyle_def)
  have e: "num_at (l_from lp) k + (num_at (l_dst lp) k - num_at (l_from lp) k) * l_easing lp 1
            = interp lp (l_easing lp (progress (clock w) (l_start lp) (l_ms lp))) k" for k
    by (simp add: interp_def progress_ge1[OF t])
  show ?thesis using tr fx cb e by simp
qed

lemma pending_ops2w: "pending (run pf0 ops2w page0) = [(1, loop2w)]"
  by (simp add: ops2w_def loop2w_def eval_defs)

theorem C2_final_frame_writes_eased_value_witness:
  "trace (runFrame 1 (run pf0 ops2w page0)) = [Wrote 0 0 ''opacity'' 0, Called 0]
   \<and> FX (runFrame 1 (run pf0 ops2w page0)) 0 = None
   \<and> style (runFrame 1 (run pf0 ops2w page0)) 0 ''willChange'' = Str ''''"
proof -
  have m: "(1, loop2w) \<in> set (pending (run pf0 ops2w page0))"
    by (simp add: pending_ops2w)
  have t: "1 \<le> progress (clock (run pf0 ops2w page0)) (l_start loop2w) (l_ms loop2w)"
    by (simp add: ops2w_def loop2w_def eval_defs)
  have tr: "trace (run pf0 ops2w page0) = []"
    by (simp add: ops2w_def eval_defs)
  have wc: "style (runFrame 1 (run pf0 ops2w page0)) 0 ''willChange'' = Str ''''"
    by (simp add: ops2w_def eval_defs)
  show ?thesis
    using C2_final_frame_writes_eased_value [OF page0_init m t] tr wc
    by (simp add: loop2w_def num_at_def ease_linear_def)
qed

text \<open>
  C2 as stated fails for a custom easing with \<open>easing(1) = 1/2\<close>: animating opacity
  from 0.25 to 1, the frame with progress 1 writes 0.625, not the destination 1.
\<close>

theorem C2_exact_destination_counterexample:
  "progress (clock (run pf0 ops2 page0)) 0 100 = 1
   \<and> map fst (pending (run pf0 ops2 page0)) = [1]
   \<and> st_to (heap (run pf0 ops2 page0) 0) = [(''opacity'', 1)]
   \<and> trace (run pf0 (ops2 @ [Frame 1]) page0) = [Wrote 0 0 ''opacity'' (5 / 8)]
   \<and> style (run pf0 (ops2 @ [Frame 1]) page0) 0 ''opacity'' = Num (5 / 8)
   \<and> style (run pf0 (ops2 @ [Frame 1]) page0) 0 ''opacity'' \<noteq> Num 1
   \<and> FX (run pf0 (ops2 @ [Frame 1]) page0) 0 = None"
  by (simp add: ops2_def ease_half_def eval_defs)

section \<open>Fading\<close>

lemma tweenElement_eq:
  "tweenElement pf el tw ms easing onDone w0 =
     (let w = cancel el w0; a = nextAddr w; h = Suc (rafCounter w);
          frm = map (\<lambda>(k, t). (k, readStyle pf w el k)) tw;
          lp = \<lparr>l_el = el, l_st = a, l_start = clock w, l_ms = ms, l_easing = easing,
                l_from = frm, l_dst = tw, l_onDone = onDone\<rparr>
      in w\<lparr>heap := (heap w)(a := \<lparr>raf = Some h, start = Some (clock w), stop = False,
                                    st_from = frm, st_to = tw\<rparr>),
           nextAddr := Suc a, FX := (FX w)(el := Some a),
           pending := pending w @ [(h, lp)], rafCounter := h\<rparr>)"
  by (simp add: tweenElement_def Let_def setState_def requestAnimationFrame_def now_def)

lemma cancel_style [simp]: "style (cancel el w) = style w"
  by (simp add: cancel_def setState_def cancelAnimationFrame_def Let_def split: option.splits)

lemma tweenElement_style [simp]: "style (tweenElement pf el tw ms easing onDone w) = style w"
  by (simp add: tweenElement_eq Let_def)







section \<open>The progress of successive frames\<close>

lemma cancel_clock [simp]: "clock (cancel el w) = clock w"
  by (simp add: cancel_def setState_def cancelAnimationFrame_def Let_def split: option.splits)

lemma tweenElement_clock [simp]: "clock (tweenElement pf el tw ms easing onDone w) = clock w"
  by (simp add: tweenElement_eq Let_def)

lemma step_clock [simp]: "clock (step lp w) = clock w"
  by (simp add: step_def Let_def requestAnimationFrame_def setState_def logEvent_def
      split: option.splits)

lemma step_nextAddr [simp]: "nextAddr (step lp w) = nextAddr w"
  by (simp add: step_def Let_def requestAnimationFrame_def setState_def logEvent_def
      split: option.splits)

lemma runFrame_clock [simp]: "clock (runFrame h w) = clock w"
  by (simp add: runFrame_def split: option.splits)

lemma runFrame_nextAddr [simp]: "nextAddr (runFrame h w) = nextAddr w"
  by (simp add: runFrame_def split: option.splits)

lemma cancel_pending: "p \<in> set (pending (cancel el w)) \<Longrightarrow> p \<in> set (pending w)"
  by (auto simp: cancel_def setState_def cancelAnimationFrame_def Let_def
      split: option.splits if_splits)

lemma tweenElement_pending:
  assumes "(h', lp') \<in> set (pending (tweenElement pf el tw ms easing onDone w))"
  shows "(h', lp') \<in> set (pending w)
     \<or> (l_st lp' = nextAddr w \<and> l_start lp' = clock w \<and> l_ms lp' = ms \<and> l_el lp' = el)"
  using assms cancel_pending[of "(h', lp')" el w] by (auto simp: tweenElement_eq Let_def)

lemma step_pending:
  "(h', lp') \<in> set (pending (step lp w)) \<Longrightarrow> (h', lp') \<in> set (pending w) \<or> lp' = lp"
  by (auto simp: step_def Let_def requestAnimationFrame_def setState_def logEvent_def
      split: option.splits if_splits)

lemma runFrame_pending:
  assumes "(h', lp') \<in> set (pending (runFrame h w))"
  shows "\<exists>h0. (h0, lp') \<in> set (pending w)"
proof (cases "map_of (pending w) h")
  case None
  then show ?thesis using assms by (auto simp: runFrame_def)
next
  case (Some lp)
  then have m: "(h, lp) \<in> set (pending w)" by (rule map_of_SomeD)
  from assms Some have "(h', lp') \<in> set (pending (step lp (w\<lparr>pending := filter (\<lambda>p. fst p \<noteq> h) (pending w)\<rparr>)))"
    by (simp add: runFrame_def)
  from step_pending[OF this] m show ?thesis by auto
qed

text \<open>A loop that is pending after an operation was pending before or has just begun.\<close>

lemma exec_pending:
  assumes "(h', lp') \<in> set (pending (exec pf x w))"
  shows "(\<exists>h0. (h0, lp') \<in> set (pending w)) \<or> (l_st lp' = nextAddr w \<and> l_start lp' = clock w)"
proof (cases x)
  case (To d tw ms easing)
  then show ?thesis using assms tweenElement_pending
    by (fastforce simp: fxTo_def split: option.splits)
next
  case (Fade d ms shw easing)
  show ?thesis
  proof (cases "first d")
    case None
    then show ?thesis using assms Fade by (auto simp: fxFade_def)
  next
    case (Some el)
    define w2 where "w2 = (let w1 = setStyle el ''willChange'' (Str ''opacity'') w
        in if fadeTarget pf w el shw \<and> style w1 el ''display'' = Str ''none''
           then setStyle el ''display'' (Str '''') w1 else w1)"
    have f: "pending w2 = pending w" "nextAddr w2 = nextAddr w" "clock w2 = clock w"
      by (simp_all add: w2_def Let_def)
    have eq: "exec pf x w = tweenElement pf el [(''opacity'', if fadeTarget pf w el shw then 1 else 0)]
                (orDefault 300 ms) (orDefault ease_inout easing) (Some (FadeDone el (fadeTarget pf w el shw))) w2"
      using Some unfolding Fade w2_def by (simp add: fxFade_def Let_def)
    from assms[unfolded eq] show ?thesis using tweenElement_pending f by fastforce
  qed
next
  case (Move d x y ms easing)
  then show ?thesis using assms tweenElement_pending
    by (fastforce simp: fxMove_def split: option.splits)
next
  case (Scale d s ms easing)
  then show ?thesis using assms tweenElement_pending
    by (fastforce simp: fxScale_def split: option.splits)
next
  case (Rotate d deg ms easing)
  then show ?thesis using assms tweenElement_pending
    by (fastforce simp: fxRotate_def split: option.splits)
next
  case (Stop d)
  then show ?thesis using assms cancel_pending
    by (fastforce simp: fxStop_def split: option.splits)
next
  case (Frame h)
  then show ?thesis using assms runFrame_pending by fastforce
next
  case (Advance dt)
  then show ?thesis using assms by auto
next
  case (Cascade cs)
  then show ?thesis using assms by auto
next
  case (Inline el p v)
  then show ?thesis using assms by auto
qed

lemma exec_clock_mono: "clock w \<le> clock (exec pf x w)"
  by (cases x) (simp_all add: fxTo_def fxFade_def fxMove_def fxScale_def fxRotate_def fxStop_def
      Let_def split: option.splits)

lemma exec_nextAddr_mono: "nextAddr w \<le> nextAddr (exec pf x w)"
  by (cases x) (simp_all add: fxTo_def fxFade_def fxMove_def fxScale_def fxRotate_def fxStop_def
      Let_def split: option.splits)

lemma run_clock_mono: "clock w \<le> clock (run pf xs w)"
proof (induction xs arbitrary: w)
  case Nil
  show ?case by simp
next
  case (Cons x xs)
  have "clock w \<le> clock (exec pf x w)" by (rule exec_clock_mono)
  also have "\<dots> \<le> clock (run pf xs (exec pf x w))" by (rule Cons.IH)
  finally show ?case by simp
qed

lemma run_nextAddr_mono: "nextAddr w \<le> nextAddr (run pf xs w)"
proof (induction xs arbitrary: w)
  case Nil
  show ?case by simp
next
  case (Cons x xs)
  have "nextAddr w \<le> nextAddr (exec pf x w)" by (rule exec_nextAddr_mono)
  also have "\<dots> \<le> nextAddr (run pf xs (exec pf x w))" by (rule Cons.IH)
  finally show ?case by simp
qed

lemma run_pending:
  "(h', lp') \<in> set (pending (run pf xs w)) \<Longrightarrow>
   (\<exists>h0. (h0, lp') \<in> set (pending w)) \<or> nextAddr w \<le> l_st lp'"
proof (induction xs arbitrary: w)
  case Nil
  then show ?case by auto
next
  case (Cons x xs)
  from Cons.prems have "(h', lp') \<in> set (pending (run pf xs (exec pf x w)))" by simp
  from Cons.IH[OF this] show ?case
  proof
    assume "\<exists>h0. (h0, lp') \<in> set (pending (exec pf x w))"
    then obtain h0 where "(h0, lp') \<in> set (pending (exec pf x w))" by blast
    from exec_pending[OF this] show ?thesis by auto
  next
    assume "nextAddr (exec pf x w) \<le> l_st lp'"
    with exec_nextAddr_mono[of w pf x] show ?thesis by simp
  qed
qed

lemma started_exec: "started w \<Longrightarrow> started (exec pf x w)"
  unfolding started_def
proof
  fix p assume s: "\<forall>p \<in> set (pending w). l_start (snd p) \<le> clock w"
    and p: "p \<in> set (pending (exec pf x w))"
  then have "(fst p, snd p) \<in> set (pending (exec pf x w))" by simp
  from exec_pending[OF this] show "l_start (snd p) \<le> clock (exec pf x w)"
    using s exec_clock_mono[of w pf x] by fastforce
qed

lemma started_run: "started w \<Longrightarrow> started (run pf xs w)"
  by (induction xs arbitrary: w) (simp_all add: started_exec)

lemma started_reachable: "started (run pf xs (init sty cs t0))"
  by (rule started_run) (simp add: started_def init_def)

lemma same_loop_now:
  assumes ok: "page_ok w" and m: "(h, lp) \<in> set (pending w)"
    and m': "(h', lp') \<in> set (pending w)" and st: "l_st lp' = l_st lp"
  shows "h' = h \<and> lp' = lp"
proof -
  have "raf (heap w (l_st lp)) = Some h" "raf (heap w (l_st lp')) = Some h'"
    using page_ok_pendingD(4)[OF ok m] page_ok_pendingD(4)[OF ok m'] by simp_all
  then have "h' = h" using st by simp
  then show ?thesis using pending_unique[OF ok m, of lp'] m' by simp
qed

lemma runFrame_running:
  assumes ok: "page_ok w" and m: "(h, lp) \<in> set (pending w)"
    and t: "progress (clock w) (l_start lp) (l_ms lp) < 1"
  shows "runFrame h w =
     (frameWrites lp (l_easing lp (progress (clock w) (l_start lp) (l_ms lp))) (map fst (l_dst lp))
        (w\<lparr>pending := filter (\<lambda>p. fst p \<noteq> h) (pending w)\<rparr>))
       \<lparr>pending := filter (\<lambda>p. fst p \<noteq> h) (pending w) @ [(Suc (rafCounter w), lp)],
        rafCounter := Suc (rafCounter w),
        heap := (heap w)(l_st lp := (heap w (l_st lp))\<lparr>raf := Some (Suc (rafCounter w))\<rparr>)\<rparr>"
proof -
  have mo: "map_of (pending w) h = Some lp"
    using page_ok_distinct[OF ok] m by (rule map_of_is_SomeI)
  have ns: "\<not> stop (heap w (l_st lp))"
    using page_ok_FXD(2)[OF ok page_ok_pendingD(3)[OF ok m]] .
  show ?thesis using mo ns t
    by (simp add: runFrame_def step_def now_def Let_def requestAnimationFrame_def setState_def)
qed

lemma runFrame_trace:
  assumes ok: "page_ok w" and m: "(h, lp) \<in> set (pending w)"
  shows "trace (runFrame h w) =
      trace w
      @ map (\<lambda>k. Wrote (l_st lp) (l_el lp) k
               (interp lp (l_easing lp (progress (clock w) (l_start lp) (l_ms lp))) k))
          (map fst (l_dst lp))
      @ (if progress (clock w) (l_start lp) (l_ms lp) < 1 then []
         else case l_onDone lp of None \<Rightarrow> [] | Some cb \<Rightarrow> [Called (l_st lp)])"
proof (cases "progress (clock w) (l_start lp) (l_ms lp) < 1")
  case True
  show ?thesis unfolding runFrame_running[OF ok m True] using True
    by (simp add: frameWrites_trace)
next
  case False
  then have t: "1 \<le> progress (clock w) (l_start lp) (l_ms lp)" by simp
  show ?thesis unfolding runFrame_final[OF ok m t] using False progress_ge1[OF t]
    by (simp add: Let_def frameWrites_trace logEvent_def split: option.splits)
qed

lemma runFrame_rescheduled:
  assumes ok: "page_ok w" and m: "(h, lp) \<in> set (pending w)"
    and t: "progress (clock w) (l_start lp) (l_ms lp) < 1"
  shows "(Suc (rafCounter w), lp) \<in> set (pending (runFrame h w))"
  unfolding runFrame_running[OF ok m t] by simp

lemma runFrame_finished:
  assumes ok: "page_ok w" and m: "(h, lp) \<in> set (pending w)"
    and t: "\<not> progress (clock w) (l_start lp) (l_ms lp) < 1"
  shows "lp \<notin> snd ` set (pending (runFrame h w))" "FX (runFrame h w) (l_el lp) = None"
proof -
  have t1: "1 \<le> progress (clock w) (l_start lp) (l_ms lp)" using t by simp
  have p: "pending (runFrame h w) = filter (\<lambda>p. fst p \<noteq> h) (pending w)"
    unfolding runFrame_final[OF ok m t1] by (simp add: Let_def logEvent_def split: option.splits)
  show "lp \<notin> snd ` set (pending (runFrame h w))"
  proof
    assume "lp \<in> snd ` set (pending (runFrame h w))"
    then obtain h' where "(h', lp) \<in> set (pending w)" "h' \<noteq> h" unfolding p by auto
    with same_loop_now[OF ok m, of h' lp] show False by simp
  qed
  show "FX (runFrame h w) (l_el lp) = None"
    unfolding runFrame_final[OF ok m t1] by (simp add: Let_def logEvent_def split: option.splits)
qed

lemma later_frame_same_loop:
  assumes ok: "page_ok w" and m: "(h, lp) \<in> set (pending w)"
    and m'': "(h'', lp'') \<in> set (pending (run pf xs (runFrame h w)))"
    and st: "l_st lp'' = l_st lp"
  shows "lp'' = lp"
proof -
  have al: "l_st lp < nextAddr w" by (rule page_ok_fresh[OF ok m])
  from run_pending[OF m''] have "\<exists>h1. (h1, lp'') \<in> set (pending (runFrame h w))"
    using al st by auto
  then obtain h1 where "(h1, lp'') \<in> set (pending (runFrame h w))" by blast
  from runFrame_pending[OF this] obtain h0 where "(h0, lp'') \<in> set (pending w)" by blast
  from same_loop_now[OF ok m this st] show ?thesis by simp
qed

lemma progress_mono: "nw \<le> nw' \<Longrightarrow> progress nw st d \<le> progress nw' st d"
  unfolding progress_def
  by (intro min.mono order_refl divide_right_mono) auto

lemma progress_nonneg: "st \<le> nw \<Longrightarrow> 0 \<le> progress nw st d"
  by (simp add: progress_def)

lemma tweenElement_begins:
  assumes ok: "page_ok w"
  shows "\<exists>h lp. loops_of el (tweenElement pf el tw d easing onDone w) = [(h, lp)]
           \<and> l_start lp = clock w \<and> l_ms lp = d \<and> l_dst lp = tw"
  using loops_of_cancel[OF ok, of el]
  by (simp add: tweenElement_eq Let_def loops_of_def)

text \<open>
  C6. On every reachable page, beginning an animation of duration \<open>d\<close> schedules one
  loop for the target whose start is the clock at that moment and whose duration is
  \<open>d\<close>. When the frame callback of a scheduled loop runs, every value it writes is
  interpolated with the easing of \<open>t = min 1 (elapsed / max 1 d)\<close>, where \<open>elapsed\<close>
  is the clock minus the start of the loop. This \<open>t\<close> lies between 0 and 1; the
  divisor is at least 1, so a zero duration divides by 1; \<open>t\<close> is below 1 while less
  than a positive \<open>d\<close> has elapsed and exactly 1 once \<open>max 1 d\<close> has elapsed. While
  \<open>t < 1\<close> the same loop, with the same start and duration, is scheduled again;
  otherwise it is not and the registry entry is removed. Whatever happens afterwards,
  the clock does not go back, a later frame of the same animation is a frame of the
  same loop, and the \<open>t\<close> it computes is not smaller.
\<close>

theorem C6_frame_progress:
  assumes w: "w = run pf ys (init sty cs t0)"
  shows "(\<exists>h lp. loops_of el (tweenElement pf el tw d easing onDone w) = [(h, lp)]
            \<and> l_start lp = clock w \<and> l_ms lp = d \<and> l_dst lp = tw)
    \<and> (\<forall>h lp. (h, lp) \<in> set (pending w) \<longrightarrow>
          trace (runFrame h w) =
            trace w
            @ map (\<lambda>k. Wrote (l_st lp) (l_el lp) k
                     (interp lp (l_easing lp (min 1 ((clock w - l_start lp) / max 1 (l_ms lp)))) k))
                (map fst (l_dst lp))
            @ (if min 1 ((clock w - l_start lp) / max 1 (l_ms lp)) < 1 then []
               else case l_onDone lp of None \<Rightarrow> [] | Some cb \<Rightarrow> [Called (l_st lp)])
          \<and> progress (clock w) (l_start lp) (l_ms lp)
              = min 1 ((clock w - l_start lp) / max 1 (l_ms lp))
          \<and> 0 \<le> progress (clock w) (l_start lp) (l_ms lp)
          \<and> progress (clock w) (l_start lp) (l_ms lp) \<le> 1
          \<and> 0 < max 1 (l_ms lp)
          \<and> (l_ms lp = 0 \<longrightarrow>
                progress (clock w) (l_start lp) (l_ms lp) = min 1 (clock w - l_start lp))
          \<and> (0 < l_ms lp \<and> clock w - l_start lp < l_ms lp \<longrightarrow>
                progress (clock w) (l_start lp) (l_ms lp) < 1)
          \<and> (max 1 (l_ms lp) \<le> clock w - l_start lp \<longrightarrow>
                progress (clock w) (l_start lp) (l_ms lp) = 1)
          \<and> (progress (clock w) (l_start lp) (l_ms lp) < 1 \<longrightarrow>
                (\<exists>h'. (h', lp) \<in> set (pending (runFrame h w))))
          \<and> (\<not> progress (clock w) (l_start lp) (l_ms lp) < 1 \<longrightarrow>
                lp \<notin> snd ` set (pending (runFrame h w)) \<and> FX (runFrame h w) (l_el lp) = None)
          \<and> (\<forall>xs h'' lp''.
                (h'', lp'') \<in> set (pending (run pf xs (runFrame h w))) \<and> l_st lp'' = l_st lp \<longrightarrow>
                  lp'' = lp
                  \<and> clock w \<le> clock (run pf xs (runFrame h w))
                  \<and> progress (clock w) (l_start lp) (l_ms lp)
                      \<le> progress (clock (run pf xs (runFrame h w))) (l_start lp'') (l_ms lp'')))"
proof -
  have ok: "page_ok w" unfolding w by (rule page_ok_reachable)
  have sd: "started w" unfolding w by (rule started_reachable)
  have beg: "\<exists>h lp. loops_of el (tweenElement pf el tw d easing onDone w) = [(h, lp)]
            \<and> l_start lp = clock w \<and> l_ms lp = d \<and> l_dst lp = tw"
    by (rule tweenElement_begins[OF ok])
  have frame: "trace (runFrame h w) =
            trace w
            @ map (\<lambda>k. Wrote (l_st lp) (l_el lp) k
                     (interp lp (l_easing lp (min 1 ((clock w - l_start lp) / max 1 (l_ms lp)))) k))
                (map fst (l_dst lp))
            @ (if min 1 ((clock w - l_start lp) / max 1 (l_ms lp)) < 1 then []
               else case l_onDone lp of None \<Rightarrow> [] | Some cb \<Rightarrow> [Called (l_st lp)])
          \<and> progress (clock w) (l_start lp) (l_ms lp)
              = min 1 ((clock w - l_start lp) / max 1 (l_ms lp))
          \<and> 0 \<le> progress (clock w) (l_start lp) (l_ms lp)
          \<and> progress (clock w) (l_start lp) (l_ms lp) \<le> 1
          \<and> 0 < max 1 (l_ms lp)
          \<and> (l_ms lp = 0 \<longrightarrow>
                progress (clock w) (l_start lp) (l_ms lp) = min 1 (clock w - l_start lp))
          \<and> (0 < l_ms lp \<and> clock w - l_start lp < l_ms lp \<longrightarrow>
                progress (clock w) (l_start lp) (l_ms lp) < 1)
          \<and> (max 1 (l_ms lp) \<le> clock w - l_start lp \<longrightarrow>
                progress (clock w) (l_start lp) (l_ms lp) = 1)
          \<and> (progress (clock w) (l_start lp) (l_ms lp) < 1 \<longrightarrow>
                (\<exists>h'. (h', lp) \<in> set (pending (runFrame h w))))
          \<and> (\<not> progress (clock w) (l_start lp) (l_ms lp) < 1 \<longrightarrow>
                lp \<notin> snd ` set (pending (runFrame h w)) \<and> FX (runFrame h w) (l_el lp) = None)
          \<and> (\<forall>xs h'' lp''.
                (h'', lp'') \<in> set (pending (run pf xs (runFrame h w))) \<and> l_st lp'' = l_st lp \<longrightarrow>
                  lp'' = lp
                  \<and> clock w \<le> clock (run pf xs (runFrame h w))
                  \<and> progress (clock w) (l_start lp) (l_ms lp)
                      \<le> progress (clock (run pf xs (runFrame h w))) (l_start lp'') (l_ms lp''))"
    if m: "(h, lp) \<in> set (pending w)" for h lp
  proof -
    have s: "l_start lp \<le> clock w" using sd m unfolding started_def by fastforce
    have c1: "trace (runFrame h w) =
            trace w
            @ map (\<lambda>k. Wrote (l_st lp) (l_el lp) k
                     (interp lp (l_easing lp (min 1 ((clock w - l_start lp) / max 1 (l_ms lp)))) k))
                (map fst (l_dst lp))
            @ (if min 1 ((clock w - l_start lp) / max 1 (l_ms lp)) < 1 then []
               else case l_onDone lp of None \<Rightarrow> [] | Some cb \<Rightarrow> [Called (l_st lp)])"
      using runFrame_trace[OF ok m] unfolding progress_def .
    have c2: "progress (clock w) (l_start lp) (l_ms lp)
              = min 1 ((clock w - l_start lp) / max 1 (l_ms lp))"
      by (simp add: progress_def)
    have c3: "0 \<le> progress (clock w) (l_start lp) (l_ms lp)"
      by (rule progress_nonneg[OF s])
    have c4: "progress (clock w) (l_start lp) (l_ms lp) \<le> 1"
      by (simp add: progress_def)
    have c5: "0 < max 1 (l_ms lp)" by simp
    have c6: "l_ms lp = 0 \<Longrightarrow>
                progress (clock w) (l_start lp) (l_ms lp) = min 1 (clock w - l_start lp)"
      by (simp add: progress_def)
    have c7: "0 < l_ms lp \<and> clock w - l_start lp < l_ms lp \<Longrightarrow>
                progress (clock w) (l_start lp) (l_ms lp) < 1"
      unfolding progress_def using c5
      by (auto simp: min_less_iff_disj pos_divide_less_eq less_max_iff_disj)
    have c8: "max 1 (l_ms lp) \<le> clock w - l_start lp \<Longrightarrow>
                progress (clock w) (l_start lp) (l_ms lp) = 1"
      unfolding progress_def using c5 by (simp add: min_def pos_le_divide_eq)
    have c9: "progress (clock w) (l_start lp) (l_ms lp) < 1 \<Longrightarrow>
                (\<exists>h'. (h', lp) \<in> set (pending (runFrame h w)))"
      using runFrame_rescheduled[OF ok m] by blast
    have c10: "\<not> progress (clock w) (l_start lp) (l_ms lp) < 1 \<Longrightarrow>
                lp \<notin> snd ` set (pending (runFrame h w)) \<and> FX (runFrame h w) (l_el lp) = None"
      using runFrame_finished[OF ok m] by blast
    have c11: "lp'' = lp
                  \<and> clock w \<le> clock (run pf xs (runFrame h w))
                  \<and> progress (clock w) (l_start lp) (l_ms lp)
                      \<le> progress (clock (run pf xs (runFrame h w))) (l_start lp'') (l_ms lp'')"
      if "(h'', lp'') \<in> set (pending (run pf xs (runFrame h w))) \<and> l_st lp'' = l_st lp"
      for xs h'' lp''
    proof -
      have e: "lp'' = lp" using later_frame_same_loop[OF ok m, of h'' lp'' pf xs] that by blast
      have c: "clock w \<le> clock (run pf xs (runFrame h w))"
        using run_clock_mono[of "runFrame h w" pf xs] by simp
      show ?thesis using e c progress_mono[OF c] by simp
    qed
    show ?thesis
      apply (intro conjI allI impI)
      subgoal by (rule c1)
      subgoal by (rule c2)
      subgoal by (rule c3)
      subgoal by (rule c4)
      subgoal by (rule c5)
      subgoal by (erule c6)
      subgoal by (erule c7)
      subgoal by (erule c8)
      subgoal by (erule c9)
      subgoal using c10 by blast
      subgoal using c10 by blast
      subgoal using c11 by blast
      subgoal using c11 by blast
      subgoal using c11 by blast
      done
  qed
  show ?thesis
    apply (intro conjI allI impI)
    subgoal by (rule beg)
    subgoal for h lp using frame[of h lp] by blast
    subgoal for h lp using frame[of h lp] by blast
    subgoal for h lp using frame[of h lp] by blast
    subgoal for h lp using frame[of h lp] by blast
    subgoal for h lp using frame[of h lp] by blast
    subgoal for h lp using frame[of h lp] by blast
    subgoal for h lp using frame[of h lp] by blast
    subgoal for h lp using frame[of h lp] by blast
    subgoal for h lp using frame[of h lp] by blast
    subgoal for h lp using frame[of h lp] by blast
    subgoal for h lp using frame[of h lp] by blast
    subgoal for h lp xs h'' lp'' using frame[of h lp] by blast
    subgoal for h lp xs h'' lp'' using frame[of h lp] by blast
    subgoal for h lp xs h'' lp'' using frame[of h lp] by blast
    done
qed

lemma pending_ops6: "pending (run pf0 ops6 page0) = [(1, loop6)]"
  by (simp add: ops6_def loop6_def eval_defs)

theorem C6_frame_progress_witness:
  "clock (run pf0 ops6 page0) = 100
   \<and> progress (clock (run pf0 ops6 page0)) (l_start loop6) (l_ms loop6) = 1 / 3
   \<and> trace (runFrame 1 (run pf0 ops6 page0)) = [Wrote 0 0 ''--p'' (1 / 3)]
   \<and> pending (runFrame 1 (run pf0 ops6 page0)) = [(2, loop6)]
   \<and> trace (run pf0 (ops6 @ [Frame 1, Advance 100, Frame 2]) page0)
       = [Wrote 0 0 ''--p'' (1 / 3), Wrote 0 0 ''--p'' (2 / 3)]
   \<and> trace (run pf0 (ops6 @ [Frame 1, Advance 100, Frame 2, Advance 150, Frame 3]) page0)
       = [Wrote 0 0 ''--p'' (1 / 3), Wrote 0 0 ''--p'' (2 / 3), Wrote 0 0 ''--p'' 1]
   \<and> pending (run pf0 (ops6 @ [Frame 1, Advance 100, Frame 2, Advance 150, Frame 3]) page0) = []
   \<and> FX (run pf0 (ops6 @ [Frame 1, Advance 100, Frame 2, Advance 150, Frame 3]) page0) 0 = None"
proof -
  have m: "(1, loop6) \<in> set (pending (run pf0 ops6 page0))"
    by (simp add: pending_ops6)
  have c: "clock (run pf0 ops6 page0) = 100"
    by (simp add: ops6_def eval_defs)
  have p: "progress (clock (run pf0 ops6 page0)) (l_start loop6) (l_ms loop6) = 1 / 3"
    by (simp add: c loop6_def progress_def)
  have f1: "trace (runFrame 1 (run pf0 ops6 page0)) = [Wrote 0 0 ''--p'' (1 / 3)]"
    "pending (runFrame 1 (run pf0 ops6 page0)) = [(2, loop6)]"
    by (simp_all add: ops6_def loop6_def eval_defs)
  have f2: "trace (run pf0 (ops6 @ [Frame 1, Advance 100, Frame 2]) page0)
       = [Wrote 0 0 ''--p'' (1 / 3), Wrote 0 0 ''--p'' (2 / 3)]"
    by (simp add: ops6_def eval_defs)
  have f3: "trace (run pf0 (ops6 @ [Frame 1, Advance 100, Frame 2, Advance 150, Frame 3]) page0)
       = [Wrote 0 0 ''--p'' (1 / 3), Wrote 0 0 ''--p'' (2 / 3), Wrote 0 0 ''--p'' 1]"
    "pending (run pf0 (ops6 @ [Frame 1, Advance 100, Frame 2, Advance 150, Frame 3]) page0) = []"
    "FX (run pf0 (ops6 @ [Frame 1, Advance 100, Frame 2, Advance 150, Frame 3]) page0) 0 = None"
    by (simp_all add: ops6_def eval_defs)
  from C6_frame_progress [where w = "run pf0 ops6 page0" and pf = pf0 and ys = ops6,
      OF page0_init] m
  have "progress (clock (run pf0 ops6 page0)) (l_start loop6) (l_ms loop6) \<le> 1"
    by blast
  with c p f1 f2 f3 show ?thesis by simp
qed

end
